theory Spec2Isabelle
  imports Complex_Main "HOL-Library.Word"
begin

unbundle bit_operations_syntax

section \<open>Bytes, characters and the C library's character classes\<close>

text \<open>
  A byte of a text, a name or the input is a HOL \<open>char\<close> (eight bits). The C sources hold
  bytes in plain \<^verbatim>\<open>char\<close> variables and widen them to \<^verbatim>\<open>int\<close>; \<open>char_int\<close> is that
  widening for a signed \<^verbatim>\<open>char\<close> (the x86-64 ABI the sources were written on), so the
  bytes from 0x80 on are negative and the byte 0xFF widens to \<open>EOF\<close>.
\<close>

definition char_int :: "char \<Rightarrow> int" where
  "char_int c = (if (of_char c :: int) < 128 then of_char c else of_char c - 256)"

definition int_char :: "int \<Rightarrow> char" where
  "int_char i = char_of i"

definition EOF :: int where
  "EOF = - 1"

text \<open>
  The classification functions of \<^verbatim>\<open>ctype.h\<close> in the "C" locale: they take an
  \<^verbatim>\<open>int\<close> and answer false for \<open>EOF\<close> and for everything outside ASCII.
\<close>

definition isdigit :: "int \<Rightarrow> bool" where
  "isdigit c = (48 \<le> c \<and> c \<le> 57)"

definition isupper :: "int \<Rightarrow> bool" where
  "isupper c = (65 \<le> c \<and> c \<le> 90)"

definition islower :: "int \<Rightarrow> bool" where
  "islower c = (97 \<le> c \<and> c \<le> 122)"

definition isalpha :: "int \<Rightarrow> bool" where
  "isalpha c = (isupper c \<or> islower c)"

definition isalnum :: "int \<Rightarrow> bool" where
  "isalnum c = (isalpha c \<or> isdigit c)"

definition isspace :: "int \<Rightarrow> bool" where
  "isspace c = (c = 32 \<or> (9 \<le> c \<and> c \<le> 13))"

definition ispunct :: "int \<Rightarrow> bool" where
  "ispunct c = (33 \<le> c \<and> c \<le> 126 \<and> \<not> isalnum c)"

definition tolower :: "int \<Rightarrow> int" where
  "tolower c = (if isupper c then c + 32 else c)"

section \<open>Faults\<close>

text \<open>
  What ends a run of the C program other than by returning: a failed \<^verbatim>\<open>assert\<close>
  (the sources are read with assertions enabled), a read outside an array, a read
  through a null pointer, and a loop that does not end.
  A function that can do either returns \<open>fault + 'a\<close>.
\<close>

datatype fault =
    AssertFailed string
  | OutOfBounds string
  | NullPointer string
  | NoReturn string

section \<open>name.c: the syntax rule for names\<close>

text \<open>The loop of the operator branch: every byte is punctuation.\<close>

fun name_punct_loop :: "string \<Rightarrow> bool" where
  "name_punct_loop [] = True"
| "name_punct_loop (c # cs) =
     (if \<not> ispunct (char_int c) then False else name_punct_loop cs)"

text \<open>The loop of the alphabetic branch, with its \<^verbatim>\<open>had_underscore\<close> flag.\<close>

fun name_alpha_loop :: "bool \<Rightarrow> string \<Rightarrow> bool" where
  "name_alpha_loop had_underscore [] = True"
| "name_alpha_loop had_underscore (c # cs) =
     (if c = CHR ''_'' \<and> had_underscore then False
      else if \<not> (c = CHR ''_'') \<and> \<not> isalnum (char_int c) then False
      else name_alpha_loop (c = CHR ''_'') cs)"

definition name_is_valid :: "string \<Rightarrow> bool" where
  "name_is_valid data =
     (case data of
        [] \<Rightarrow> False
      | d # _ \<Rightarrow>
          if ispunct (char_int d) then name_punct_loop data
          else if isalpha (char_int d) then name_alpha_loop True data
          else if length data = 1
            then (d = CHR 0x0A \<or> d = CHR 0x09 \<or> d = CHR 0x08)
          else False)"

text \<open>
  \<^verbatim>\<open>name_new\<close> runs the \<^verbatim>\<open>TREE_INITIALIZE\<close> case of \<^verbatim>\<open>name_handler\<close>: it asserts that
  the first \<open>sz\<close> bytes of \<open>data\<close> are a valid name and copies them.
\<close>

definition name_new :: "nat \<Rightarrow> string \<Rightarrow> fault + string" where
  "name_new sz data =
     (if name_is_valid (take sz data) then Inr (take sz data)
      else Inl (AssertFailed ''Name must respect XL syntax''))"

section \<open>scanner.c: normalizing a name\<close>

text \<open>
  The first loop of \<^verbatim>\<open>scanner_normalize\<close>. It assigns \<^verbatim>\<open>normalized\<close> afresh for every
  byte and adds one to \<^verbatim>\<open>normalized_size\<close> for every byte that is not an underscore.
\<close>

fun normalize_check :: "bool \<Rightarrow> nat \<Rightarrow> string \<Rightarrow> bool \<times> nat" where
  "normalize_check normalized normalized_size [] = (normalized, normalized_size)"
| "normalize_check normalized normalized_size (c # cs) =
     (let relevant = (c \<noteq> CHR ''_'')
      in normalize_check (relevant \<and> char_int c = tolower (char_int c))
           (normalized_size + (if relevant then 1 else 0)) cs)"

text \<open>
  The second loop: it walks the source and writes the lower-cased bytes other than
  underscores through the pointer \<^verbatim>\<open>dst\<close>, here the index \<open>dst\<close> into the new name.
\<close>

fun normalize_copy :: "string \<Rightarrow> nat \<Rightarrow> string \<Rightarrow> string" where
  "normalize_copy [] dst result = result"
| "normalize_copy (c # cs) dst result =
     (if c = CHR ''_'' then normalize_copy cs dst result
      else normalize_copy cs (dst + 1) (result[dst := int_char (tolower (char_int c))]))"

definition scanner_normalize :: "string \<Rightarrow> fault + string" where
  "scanner_normalize src =
     (if \<not> name_is_valid src then Inl (AssertFailed ''Normalizing invalid name'')
      else
        case normalize_check True 0 src of
          (normalized, normalized_size) \<Rightarrow>
            if normalized then Inr src
            else
              (case name_new normalized_size src of
                 Inl e \<Rightarrow> Inl e
               | Inr result \<Rightarrow> Inr (normalize_copy src 0 result)))"

section \<open>error.c: the error sink\<close>

type_synonym srcpos = "32 word"

datatype fmt_arg = ArgUnsigned "32 word" | ArgText string

text \<open>
  Modelled from the spec: \<^verbatim>\<open>text_vprintf\<close> (text.c) is not among the sources. The spec
  says that \<^verbatim>\<open>error(pos, fmt, ...)\<close> formats a message into a text node tagged with
  \<^verbatim>\<open>pos\<close>. The node is represented by its position together with the format and the
  argument values that determine its bytes.
\<close>

datatype text_node = Text_Node (text_position: srcpos) (text_format: string) (text_args: "fmt_arg list")

definition text_vprintf :: "srcpos \<Rightarrow> string \<Rightarrow> fmt_arg list \<Rightarrow> text_node" where
  "text_vprintf position message va = Text_Node position message va"

text \<open>
  The static variable \<^verbatim>\<open>errors\<close> of error.c (\<open>None\<close> is the null pointer), and the
  messages that \<^verbatim>\<open>error_display\<close> has written to the standard error stream, oldest
  first. How a message is laid out on the stream is not modelled.
\<close>

record error_sink =
  errors :: "text_node list option"
  displayed :: "text_node list"

definition error_display :: "text_node \<Rightarrow> error_sink \<Rightarrow> error_sink" where
  "error_display err k = k\<lparr>displayed := displayed k @ [err]\<rparr>"

text \<open>
  Modelled from the spec: array.h, which generates \<^verbatim>\<open>errors_push\<close>, \<^verbatim>\<open>errors_append\<close>,
  \<^verbatim>\<open>errors_length\<close> and \<^verbatim>\<open>errors_data\<close>, is not among the sources. As for the typed blobs
  of blob.h, a push appends one element at the end, an append appends the elements of
  the second vector, and the length is read through the pointer, which must not be
  null.
\<close>

definition errors_push :: "text_node list \<Rightarrow> text_node \<Rightarrow> text_node list" where
  "errors_push es err = es @ [err]"

definition errors_append :: "text_node list \<Rightarrow> text_node list option \<Rightarrow> fault + text_node list" where
  "errors_append es other =
     (case other of
        None \<Rightarrow> Inl (NullPointer ''errors_append'')
      | Some os \<Rightarrow> Inr (es @ os))"

fun error_display_all :: "text_node list \<Rightarrow> error_sink \<Rightarrow> error_sink" where
  "error_display_all [] k = k"
| "error_display_all (e # es) k = error_display_all es (error_display e k)"

text \<open>\<^verbatim>\<open>errors_display(&errors)\<close>: display every message in order, then dispose of the list,
  which nulls the variable.\<close>

definition errors_display :: "error_sink \<Rightarrow> fault + error_sink" where
  "errors_display k =
     (case errors k of
        None \<Rightarrow> Inl (NullPointer ''errors_display'')
      | Some es \<Rightarrow> Inr ((error_display_all es k)\<lparr>errors := None\<rparr>))"

definition errorv :: "srcpos \<Rightarrow> string \<Rightarrow> fmt_arg list \<Rightarrow> error_sink \<Rightarrow> error_sink" where
  "errorv position message va k =
     (let err = text_vprintf position message va
      in case errors k of
           Some es \<Rightarrow> k\<lparr>errors := Some (errors_push es err)\<rparr>
         | None \<Rightarrow> error_display err k)"

definition error :: "srcpos \<Rightarrow> string \<Rightarrow> fmt_arg list \<Rightarrow> error_sink \<Rightarrow> error_sink" where
  "error position message va k = errorv position message va k"

definition errors_save :: "error_sink \<Rightarrow> text_node list option \<times> error_sink" where
  "errors_save k = (errors k, k\<lparr>errors := Some []\<rparr>)"

definition errors_commit :: "text_node list option \<Rightarrow> error_sink \<Rightarrow> fault + error_sink" where
  "errors_commit saved_errors k =
     (case saved_errors of
        Some saved \<Rightarrow>
          (case errors_append saved (errors k) of
             Inl e \<Rightarrow> Inl e
           | Inr appended \<Rightarrow> Inr (k\<lparr>errors := Some appended\<rparr>))
      | None \<Rightarrow> errors_display k)"

definition errors_clear :: "text_node list option \<Rightarrow> error_sink \<Rightarrow> error_sink" where
  "errors_clear saved_errors k = k\<lparr>errors := saved_errors\<rparr>"

section \<open>blob.h: blobs and the stack of indentation columns\<close>

text \<open>
  Modelled from the spec: blob.c, which holds \<^verbatim>\<open>blob_append_data\<close> and \<^verbatim>\<open>blob_range\<close>, is
  not among the sources. The spec says that the first appends bytes and that the second
  narrows a blob to the given byte sub-range in place. A blob, a text and a name are
  their byte sequences.
\<close>

definition blob_append_data :: "'a list \<Rightarrow> 'a list \<Rightarrow> 'a list" where
  "blob_append_data blob data = blob @ data"

definition blob_range :: "'a list \<Rightarrow> nat \<Rightarrow> nat \<Rightarrow> 'a list" where
  "blob_range blob start len = take len (drop start blob)"

text \<open>
  The functions that \<^verbatim>\<open>blob_type(unsigned, indents)\<close> generates. The top of the stack is
  the last element; \<^verbatim>\<open>indents_top\<close> reads the element at index \<^verbatim>\<open>length - 1\<close> without a
  check, which lies outside the data of an empty stack; \<^verbatim>\<open>indents_pop\<close> asserts that
  the stack is not empty.
\<close>

definition indents_length :: "32 word list \<Rightarrow> nat" where
  "indents_length xs = length xs"

definition indents_push :: "32 word list \<Rightarrow> 32 word \<Rightarrow> 32 word list" where
  "indents_push xs v = blob_append_data xs [v]"

definition indents_top :: "32 word list \<Rightarrow> fault + 32 word" where
  "indents_top xs =
     (if indents_length xs = 0 then Inl (OutOfBounds ''indents_top'')
      else Inr (xs ! (indents_length xs - 1)))"

definition indents_pop :: "32 word list \<Rightarrow> fault + 32 word list" where
  "indents_pop xs =
     (if indents_length xs = 0 then Inl (AssertFailed ''Can only pop if non-empty'')
      else Inr (blob_range xs 0 (indents_length xs - 1)))"

section \<open>scanner.c: the scanner state\<close>

datatype token =
    tokEOF | tokNEWLINE | tokINDENT | tokUNINDENT
  | tokINTEGER | tokREAL | tokCHARACTER | tokTEXT | tokBLOB
  | tokNAME | tokSYMBOL | tokOPEN | tokCLOSE | tokERROR

text \<open>
  The value a read leaves in \<^verbatim>\<open>s->scanned\<close>, each node with the position it was created
  at. The value of a real is computed in exact arithmetic: the rounding of the C
  \<^verbatim>\<open>double\<close> is not modelled, and no statement below depends on the value of a real.
\<close>

datatype scanned =
    Natural srcpos "64 word"
  | Real srcpos real
  | Character srcpos "32 word"
  | Text srcpos string
  | Name srcpos string
  | Blob srcpos string

text \<open>
  Modelled from the spec: syntax.c is not among the sources. The scanner calls
  \<^verbatim>\<open>syntax_is_operator(syntax, text)\<close> (may the spelling be extended as an operator?) and
  \<^verbatim>\<open>syntax_is_block(syntax, name, &closing)\<close> (is the name a block opener? if so the
  expected closing name is written to \<^verbatim>\<open>closing\<close>); a syntax table is these two
  functions.
\<close>

record syntax_table =
  syntax_is_operator :: "string \<Rightarrow> bool"
  syntax_is_block :: "string \<Rightarrow> string option"

text \<open>
  The fields of \<^verbatim>\<open>scanner_t\<close>, with what they point to (\<open>scanner_syntax\<close> is
  \<^verbatim>\<open>s->syntax\<close>). \<open>position\<close> is the current
  position of the position registry (position.c is not among the sources; the spec
  says that a step advances it by one). \<open>reader\<close> tells whether \<^verbatim>\<open>s->reader\<close> is set, and
  \<open>stream\<close> holds the bytes the reader has yet to deliver, one per call, before it
  returns no byte. \<open>source_position\<close> and \<open>source\<close> are the text \<^verbatim>\<open>s->source\<close>. The two
  pending characters are zero when empty. \<open>sink\<close> is the state of error.c.
\<close>

record scanner =
  position :: srcpos
  reader :: bool
  stream :: string
  scanner_syntax :: "syntax_table option"
  source_position :: srcpos
  source :: string
  scanned :: "scanned option"
  indents :: "32 word list"
  block_close :: "string option"
  indent :: "32 word"
  column :: "32 word"
  pending_char0 :: char
  pending_char1 :: char
  indent_char :: char
  checking_indent :: bool
  setting_indent :: bool
  had_space_before :: bool
  had_space_after :: bool
  sink :: error_sink

text \<open>\<^verbatim>\<open>scanner_new\<close> followed by \<^verbatim>\<open>scanner_open_stream\<close> on a stream that will deliver
  the bytes \<open>input\<close>, with the error sink \<open>k\<close>.\<close>

definition scanner_new :: "srcpos \<Rightarrow> syntax_table option \<Rightarrow> error_sink \<Rightarrow> scanner" where
  "scanner_new pos syn k =
     \<lparr> position = pos, reader = False, stream = [], scanner_syntax = syn,
       source_position = 0, source = [], scanned = None,
       indents = [], block_close = None, indent = 0, column = 0,
       pending_char0 = CHR 0x00, pending_char1 = CHR 0x00, indent_char = CHR 0x00,
       checking_indent = False, setting_indent = False,
       had_space_before = False, had_space_after = False, sink = k \<rparr>"

definition scanner_open_stream :: "string \<Rightarrow> scanner \<Rightarrow> fault + scanner" where
  "scanner_open_stream input s =
     (if reader s then Inl (AssertFailed ''Cannot open a scanner that is already open'')
      else Inr (s\<lparr>reader := True, stream := input\<rparr>))"

definition scanner_getchar :: "scanner \<Rightarrow> int \<times> scanner" where
  "scanner_getchar s =
     (let c = pending_char0 s
      in if c \<noteq> CHR 0x00
         then (char_int c, s\<lparr>pending_char0 := pending_char1 s, pending_char1 := CHR 0x00\<rparr>)
         else if \<not> reader s then (EOF, s)
         else (case stream s of
                 [] \<Rightarrow> (EOF, s\<lparr>reader := False\<rparr>)
               | b # bs \<Rightarrow> (char_int b, s\<lparr>stream := bs\<rparr>)))"

definition scanner_ungetchar :: "int \<Rightarrow> scanner \<Rightarrow> fault + scanner" where
  "scanner_ungetchar c s =
     (if pending_char1 s \<noteq> CHR 0x00 then Inl (AssertFailed ''Max two pending char at a time'')
      else Inr (s\<lparr>pending_char1 := pending_char0 s, pending_char0 := int_char c\<rparr>))"

definition scanner_position :: "scanner \<Rightarrow> srcpos" where
  "scanner_position s =
     position s
       - (if pending_char0 s \<noteq> CHR 0x00 then 1 else 0)
       - (if pending_char1 s \<noteq> CHR 0x00 then 1 else 0)"

definition scanner_consume :: "int \<Rightarrow> scanner \<Rightarrow> scanner" where
  "scanner_consume c s =
     (let s1 = (if int_char c \<noteq> CHR 0x00 then s\<lparr>source := blob_append_data (source s) [int_char c]\<rparr>
                else s)
      in s1\<lparr>position := position s1 + 1\<rparr>)"

definition scanner_nextchar :: "int \<Rightarrow> scanner \<Rightarrow> int \<times> scanner" where
  "scanner_nextchar c s = scanner_getchar (scanner_consume c s)"

text \<open>The scanner's calls of \<^verbatim>\<open>error\<close> go to the sink it carries.\<close>

definition scanner_error :: "srcpos \<Rightarrow> string \<Rightarrow> fmt_arg list \<Rightarrow> scanner \<Rightarrow> scanner" where
  "scanner_error pos message va s = s\<lparr>sink := error pos message va (sink s)\<rparr>"

text \<open>The number of bytes a scanner can still deliver: pending characters and stream.\<close>

definition remaining :: "scanner \<Rightarrow> nat" where
  "remaining s =
     length (stream s)
       + (if pending_char0 s \<noteq> CHR 0x00 then 1 else 0)
       + (if pending_char1 s \<noteq> CHR 0x00 then 1 else 0)"

section \<open>scanner.c: white space and indentation\<close>

text \<open>One turn of the loop that skips spaces, up to the call that consumes the character.\<close>

definition space_step :: "srcpos \<Rightarrow> int \<Rightarrow> scanner \<Rightarrow> scanner" where
  "space_step pos c s =
     (let s1 = s\<lparr>had_space_before := True\<rparr>;
          s2 = (if c = 10 then s1\<lparr>checking_indent := True, column := 0\<rparr>
                else if checking_indent s1 then
                  (let s3 = (if c = 32 \<or> c = 9 then
                               (if indent_char s1 = CHR 0x00 then s1\<lparr>indent_char := int_char c\<rparr>
                                else if char_int (indent_char s1) \<noteq> c
                                  then scanner_error pos ''Mixed tabs and spaces in indentation'' [] s1
                                else s1)
                             else s1)
                   in s3\<lparr>column := column s3 + 1\<rparr>)
                else s1)
      in scanner_consume (if c = 10 then c else 0) s2)"

function skip_spaces :: "srcpos \<Rightarrow> int \<Rightarrow> scanner \<Rightarrow> int \<times> scanner" where
  "skip_spaces pos c s =
     (if isspace c \<and> c \<noteq> EOF
      then skip_spaces pos (fst (scanner_getchar (space_step pos c s)))
                           (snd (scanner_getchar (space_step pos c s)))
      else (c, s))"
  by pat_completeness auto

text \<open>
  The block that stops counting indentation (the \<^verbatim>\<open>if (s->checking_indent)\<close> of
  \<^verbatim>\<open>scanner_read\<close>), entered with the character \<open>c\<close> that ended the white space.
\<close>

definition scanner_indent :: "srcpos \<Rightarrow> int \<Rightarrow> scanner \<Rightarrow> fault + token \<times> scanner" where
  "scanner_indent pos c s0 =
     (case scanner_ungetchar c s0 of
        Inl e \<Rightarrow> Inl e
      | Inr s1 \<Rightarrow>
          (let s = s1\<lparr>checking_indent := False\<rparr>
           in if setting_indent s then
                Inr (tokNEWLINE,
                     s\<lparr>indents := indents_push (indents s) (indent s),
                       indent := column s, setting_indent := False\<rparr>)
              else if column s > indent s then
                Inr (tokINDENT,
                     s\<lparr>indent := column s, indents := indents_push (indents s) (column s)\<rparr>)
              else
                (case indents_top (indents s) of
                   Inl e \<Rightarrow> Inl e
                 | Inr t \<Rightarrow>
                     if column s < t then
                       (case indents_pop (indents s) of
                          Inl e \<Rightarrow> Inl e
                        | Inr popped \<Rightarrow>
                            (let s2 = s\<lparr>indents := popped, indent := column s\<rparr>
                             in if indents_length popped \<noteq> 0
                                   \<and> (case indents_top popped of
                                          Inl e \<Rightarrow> False
                                        | Inr t2 \<Rightarrow> t2 < column s2)
                                then Inr (tokERROR,
                                          scanner_error pos
                                            ''Unindenting to the right of previous indentation'' [] s2)
                                else Inr (tokUNINDENT, s2)))
                     else Inr (tokNEWLINE, s))))"


lemma remaining_getchar_le: "remaining (snd (scanner_getchar s)) \<le> remaining s"
  by (auto simp: scanner_getchar_def remaining_def Let_def split: list.splits)

lemma remaining_getchar_less:
  "fst (scanner_getchar s) \<noteq> EOF \<Longrightarrow> remaining (snd (scanner_getchar s)) < remaining s"
  by (auto simp: scanner_getchar_def remaining_def Let_def split: list.splits if_splits)

lemma remaining_consume [simp]: "remaining (scanner_consume c s) = remaining s"
  by (simp add: scanner_consume_def remaining_def Let_def)

lemma remaining_error [simp]: "remaining (scanner_error pos m va s) = remaining s"
  by (simp add: scanner_error_def remaining_def)

lemma remaining_space_step [simp]: "remaining (space_step pos c s) = remaining s"
  by (simp add: space_step_def remaining_def Let_def scanner_error_def scanner_consume_def)

termination skip_spaces
proof (relation "measure (\<lambda>(pos, c, s). 2 * remaining s + (if isspace c \<and> c \<noteq> EOF then 1 else 0))", goal_cases)
  case 1
  show ?case by simp
next
  case (2 pos c s)
  show ?case
  proof (cases "fst (scanner_getchar (space_step pos c s)) = EOF")
    case True
    with 2 remaining_getchar_le [of "space_step pos c s"] show ?thesis by (simp add: case_prod_beta)
  next
    case False
    with 2 remaining_getchar_less [of "space_step pos c s"] show ?thesis by (simp add: case_prod_beta)
  qed
qed

declare skip_spaces.simps [simp del]

text \<open>
  The measure that the loops of the scanner decrease: twice the number of bytes still to
  deliver, plus one while the current character is not \<open>EOF\<close>.
\<close>

definition input_measure :: "int \<times> scanner \<Rightarrow> nat" where
  "input_measure r = 2 * remaining (snd r) + (if fst r \<noteq> EOF then 1 else 0)"

section \<open>scanner.c: numbers and blobs\<close>

text \<open>
  The two tables of digit values, as the first call of the number branch fills them:
  255 marks a byte that is no digit. The tables have 256 entries, and the scanner
  indexes them with the \<^verbatim>\<open>int\<close> it got from \<^verbatim>\<open>scanner_getchar\<close>, which is negative for
  \<open>EOF\<close> and for the bytes from 0x80 on: \<open>digit_value\<close> is the indexing, with the choice
  of table that the pointer \<^verbatim>\<open>digit_value\<close> of the source makes.
\<close>

definition base_value :: "int \<Rightarrow> int" where
  "base_value i =
     (if 97 \<le> i \<and> i \<le> 122 then i - 97 + 10
      else if 65 \<le> i \<and> i \<le> 90 then i - 65 + 10
      else if 48 \<le> i \<and> i \<le> 57 then i - 48
      else 255)"

definition base64_value :: "int \<Rightarrow> int" where
  "base64_value i =
     (if i = 47 then 63
      else if i = 43 then 62
      else if 48 \<le> i \<and> i \<le> 57 then i - 48 + 52
      else if 97 \<le> i \<and> i \<le> 122 then i - 97 + 26
      else if 65 \<le> i \<and> i \<le> 90 then i - 65
      else 255)"

definition digit_value :: "bool \<Rightarrow> int \<Rightarrow> fault + 32 word" where
  "digit_value base64 c =
     (if 0 \<le> c \<and> c < 256
      then Inr (word_of_int (if base64 then base64_value c else base_value c))
      else Inl (OutOfBounds ''digit_value''))"

text \<open>The local variables of the number branch; \<open>blob\<close> is \<open>None\<close> for the null pointer,
  and \<open>digit_base64\<close> tells that \<^verbatim>\<open>digit_value\<close> points to the base-64 table.\<close>

record number =
  base :: "32 word"
  blob_base :: "32 word"
  natural_value :: "64 word"
  floating_point :: bool
  based_number :: bool
  blob_chunk :: "32 word"
  blob_bits :: "32 word"
  blob_digbits :: "32 word"
  blob_maxbits :: "32 word"
  digit_base64 :: bool
  blob :: "string option"

definition number_init :: "string option \<Rightarrow> number" where
  "number_init b =
     \<lparr> base = 10, blob_base = 16, natural_value = 0, floating_point = False,
       based_number = False, blob_chunk = 0, blob_bits = 0, blob_digbits = 4,
       blob_maxbits = 8, digit_base64 = False, blob = b \<rparr>"

text \<open>Appending the current chunk to the blob: one byte, or three in the 24-bit modes.\<close>

definition blob_emit :: "number \<Rightarrow> number" where
  "blob_emit n =
     (if blob_maxbits n = 8
      then n\<lparr>blob := map_option (\<lambda>b. blob_append_data b [char_of (uint (blob_chunk n))]) (blob n)\<rparr>
      else n\<lparr>blob := map_option (\<lambda>b. blob_append_data b
                 [char_of (uint (drop_bit 16 (blob_chunk n))),
                  char_of (uint (drop_bit 8 (blob_chunk n))),
                  char_of (uint (blob_chunk n))]) (blob n)\<rparr>)"

text \<open>The body of the digit loop up to the call that reads the next character.\<close>

definition digit_step :: "32 word \<Rightarrow> number \<Rightarrow> number" where
  "digit_step d n =
     (let n1 = n\<lparr>natural_value := ucast (base n) * natural_value n + ucast d\<rparr>
      in if blob n1 \<noteq> None then
           (let n2 = n1\<lparr>blob_chunk := push_bit (unat (blob_digbits n1)) (blob_chunk n1) OR d,
                        blob_bits := blob_bits n1 + blob_digbits n1\<rparr>
            in if blob_bits n2 \<ge> blob_maxbits n2 then blob_emit n2 else n2)
         else n1)"

text \<open>Skipping a single underscore after a digit; a second one is reported.\<close>

definition skip_underscore :: "srcpos \<Rightarrow> string \<Rightarrow> int \<times> scanner \<Rightarrow> int \<times> scanner" where
  "skip_underscore pos message r =
     (if fst r = 95 then
        (let r2 = scanner_nextchar (fst r) (snd r)
         in if fst r2 = 95 then (fst r2, scanner_error pos message [] (snd r2)) else r2)
      else r)"

function skip_blob_spaces :: "int \<times> scanner \<Rightarrow> int \<times> scanner" where
  "skip_blob_spaces r =
     (if fst r \<noteq> EOF \<and> isspace (fst r) then skip_blob_spaces (scanner_nextchar 0 (snd r))
      else r)"
  by pat_completeness auto

definition after_digit :: "srcpos \<Rightarrow> bool \<Rightarrow> int \<Rightarrow> scanner \<Rightarrow> int \<times> scanner" where
  "after_digit pos is_blob c s =
     (let r = skip_underscore pos ''Two '_' characters in a row look ugly'' (scanner_nextchar c s)
      in if is_blob then skip_blob_spaces r else r)"

function scan_digits :: "srcpos \<Rightarrow> int \<Rightarrow> number \<Rightarrow> scanner \<Rightarrow> fault + int \<times> number \<times> scanner" where
  "scan_digits pos c n s =
     (case digit_value (digit_base64 n) c of
        Inl e \<Rightarrow> Inl e
      | Inr d \<Rightarrow>
          if d < base n \<or> (blob n \<noteq> None \<and> d < blob_base n) then
            scan_digits pos (fst (after_digit pos (blob n \<noteq> None) c s)) (digit_step d n)
                            (snd (after_digit pos (blob n \<noteq> None) c s))
          else Inr (c, n, s))"
  by pat_completeness auto

text \<open>What a \<^verbatim>\<open>#\<close> after the digits does to the base and to the blob.\<close>

definition set_base :: "srcpos \<Rightarrow> number \<Rightarrow> scanner \<Rightarrow> number \<times> scanner" where
  "set_base pos n s =
     (let n1 = n\<lparr>base := ucast (natural_value n), blob_base := ucast (natural_value n)\<rparr>
      in if base n1 = 64 then (n1\<lparr>digit_base64 := True\<rparr>, s)
         else if base n1 < 2 \<or> base n1 > 36 then
           (n1\<lparr>base := 36\<rparr>,
            scanner_error pos ''The base %d is not valid, not in 2..36'' [ArgUnsigned 36] s)
         else if blob n1 \<noteq> None then
           (let n2 = n1\<lparr>blob := map_option (\<lambda>b. blob_range b 0 0) (blob n1),
                        blob_bits := 0, blob_chunk := 0\<rparr>
            in if base n2 = 2 then (n2\<lparr>blob_digbits := 1\<rparr>, s)
               else if base n2 = 4 then (n2\<lparr>blob_digbits := 2\<rparr>, s)
               else if base n2 = 8 then (n2\<lparr>blob_digbits := 3, blob_maxbits := 24\<rparr>, s)
               else if base n2 = 16 then (n2\<lparr>blob_digbits := 4\<rparr>, s)
               else if base n2 = 64 then (n2\<lparr>blob_digbits := 6, blob_maxbits := 24\<rparr>, s)
               else (n2, scanner_error pos ''Base %d is invalid for a blob'' [ArgUnsigned (base n2)] s))
         else (n1, s))"


lemma measure_nextchar: "input_measure (scanner_nextchar d s) \<le> 2 * remaining s"
proof (cases "fst (scanner_getchar (scanner_consume d s)) = EOF")
  case True
  with remaining_getchar_le [of "scanner_consume d s"] show ?thesis
    by (simp add: input_measure_def scanner_nextchar_def)
next
  case False
  with remaining_getchar_less [of "scanner_consume d s"] show ?thesis
    by (simp add: input_measure_def scanner_nextchar_def)
qed

lemma measure_bound: "2 * remaining (snd r) \<le> input_measure r"
  by (simp add: input_measure_def)

lemma measure_nextchar_le: "input_measure (scanner_nextchar d (snd r)) \<le> input_measure r"
  using measure_nextchar [of d "snd r"] measure_bound [of r] by simp

lemma measure_nextchar_less:
  "fst r \<noteq> EOF \<Longrightarrow> input_measure (scanner_nextchar d (snd r)) < input_measure r"
  using measure_nextchar [of d "snd r"] by (simp add: input_measure_def)

lemma measure_error [simp]:
  "input_measure (c, scanner_error pos m va s) = input_measure (c, s)"
  by (simp add: input_measure_def)

lemma measure_error_pair [simp]:
  "input_measure (fst r, scanner_error pos m va (snd r)) = input_measure r"
  by (simp add: input_measure_def)

lemma measure_skip_underscore: "input_measure (skip_underscore pos m r) \<le> input_measure r"
proof (cases "fst r = 95")
  case True
  have le: "input_measure (scanner_nextchar 95 (snd r)) \<le> input_measure r"
    by (rule measure_nextchar_le)
  have "input_measure (95, scanner_error pos m [] (snd r2)) = input_measure r2"
    if "fst r2 = 95" for r2
    using that by (simp add: input_measure_def)
  with le True show ?thesis
    by (simp add: skip_underscore_def Let_def)
next
  case False
  then show ?thesis by (simp add: skip_underscore_def)
qed

termination skip_blob_spaces
proof (relation "measure input_measure", goal_cases)
  case 1
  show ?case by simp
next
  case (2 r)
  then have "input_measure (scanner_nextchar 0 (snd r)) < input_measure r"
    by (simp add: measure_nextchar_less)
  then show ?case by simp
qed

declare skip_blob_spaces.simps [simp del]


lemma measure_skip_blob_spaces: "input_measure (skip_blob_spaces r) \<le> input_measure r"
proof (induction r rule: skip_blob_spaces.induct)
  case (1 r)
  show ?case
  proof (cases "fst r \<noteq> EOF \<and> isspace (fst r)")
    case True
    with 1 measure_nextchar_le [of 0 r] show ?thesis
      by (subst skip_blob_spaces.simps) simp
  next
    case False
    then show ?thesis by (subst skip_blob_spaces.simps) auto
  qed
qed

lemma measure_after_digit: "input_measure (after_digit pos b c s) \<le> 2 * remaining s"
proof -
  define r where "r = skip_underscore pos ''Two '_' characters in a row look ugly'' (scanner_nextchar c s)"
  have "input_measure r \<le> input_measure (scanner_nextchar c s)"
    unfolding r_def by (rule measure_skip_underscore)
  then have r: "input_measure r \<le> 2 * remaining s"
    using measure_nextchar [of c s] by simp
  have "input_measure (skip_blob_spaces r) \<le> 2 * remaining s"
    using measure_skip_blob_spaces [of r] r by simp
  with r show ?thesis
    by (simp add: after_digit_def Let_def r_def)
qed

lemma digit_value_Inr: "digit_value b c = Inr d \<Longrightarrow> c \<noteq> EOF"
  by (auto simp: digit_value_def EOF_def split: if_splits)

termination scan_digits
proof (relation "measure (\<lambda>(pos, c, n, s). input_measure (c, s))", goal_cases)
  case 1
  show ?case by simp
next
  case (2 pos c n s d)
  then have "c \<noteq> EOF" by (simp add: digit_value_Inr)
  then have "2 * remaining s < input_measure (c, s)"
    by (simp add: input_measure_def)
  with measure_after_digit [of pos "blob n \<noteq> None" c s]
  have "input_measure (after_digit pos (blob n \<noteq> None) c s) < input_measure (c, s)"
    by (rule le_less_trans)
  then show ?case by simp
qed

declare scan_digits.simps [simp del]

text \<open>
  The \<^verbatim>\<open>do ... while (based_number)\<close> loop: the digits, then a \<^verbatim>\<open>#\<close> that makes the number read
  so far the base and starts the digits again.
\<close>

function scan_based :: "srcpos \<Rightarrow> int \<Rightarrow> number \<Rightarrow> scanner \<Rightarrow> fault + int \<times> number \<times> scanner" where
  "scan_based pos c n s =
     (case scan_digits pos c n s of
        Inl e \<Rightarrow> Inl e
      | Inr r \<Rightarrow>
          if fst r = 35 \<and> \<not> based_number (fst (snd r)) then
            scan_based pos
              (fst (scanner_nextchar (fst r) (snd (set_base pos (fst (snd r)) (snd (snd r))))))
              ((fst (set_base pos (fst (snd r)) (snd (snd r))))\<lparr>natural_value := 0, based_number := True\<rparr>)
              (snd (scanner_nextchar (fst r) (snd (set_base pos (fst (snd r)) (snd (snd r))))))
          else Inr (fst r, (fst (snd r))\<lparr>based_number := False\<rparr>, snd (snd r)))"
  by pat_completeness auto

text \<open>
  The loop that pads the last chunk of a blob with zero bits. It has no bound of its
  own, so it is a partial function: \<open>None\<close> is a loop that does not end.
\<close>

partial_function (option) blob_pad :: "number \<Rightarrow> number option" where
  "blob_pad n =
     (if blob_bits n < blob_maxbits n
      then blob_pad (n\<lparr>blob_chunk := push_bit (unat (blob_digbits n)) (blob_chunk n),
                       blob_bits := blob_bits n + blob_digbits n\<rparr>)
      else Some n)"

declare blob_pad.simps [code]

definition scan_blob_end :: "srcpos \<Rightarrow> int \<Rightarrow> number \<Rightarrow> scanner \<Rightarrow> fault + token \<times> scanner" where
  "scan_blob_end pos c n s =
     (let r = (if blob_base n = 64 \<and> c = 61 then scanner_nextchar c s else (c, s))
      in case (if fst r = 36 then Inr (scanner_consume (fst r) (snd r))
               else scanner_ungetchar (fst r) (snd r)) of
           Inl e \<Rightarrow> Inl e
         | Inr s1 \<Rightarrow>
             (case (if blob_bits n \<noteq> 0 then map_option blob_emit (blob_pad n) else Some n) of
                None \<Rightarrow> Inl (NoReturn ''blob padding'')
              | Some n1 \<Rightarrow> Inr (tokBLOB, s1\<lparr>scanned := map_option (Blob pos) (blob n1)\<rparr>)))"

text \<open>The digits after the decimal point.\<close>

function scan_fraction ::
  "srcpos \<Rightarrow> int \<Rightarrow> number \<Rightarrow> real \<Rightarrow> real \<Rightarrow> scanner \<Rightarrow> fault + int \<times> real \<times> scanner" where
  "scan_fraction pos c n comma_position real_value s =
     (case digit_value (digit_base64 n) c of
        Inl e \<Rightarrow> Inl e
      | Inr d \<Rightarrow>
          if d < base n then
            scan_fraction pos
              (fst (skip_underscore pos ''Two _ characters look really ugly'' (scanner_nextchar c s)))
              n
              (comma_position / real_of_int (uint (base n)))
              (real_value + comma_position / real_of_int (uint (base n)) * real (unat d))
              (snd (skip_underscore pos ''Two _ characters look really ugly'' (scanner_nextchar c s)))
          else Inr (c, real_value, s))"
  by pat_completeness auto

text \<open>The digits of the exponent, always in base 10 and read in the table for bases 2 to 36.\<close>

definition skip_exponent_underscore :: "int \<times> scanner \<Rightarrow> int \<times> scanner" where
  "skip_exponent_underscore r = (if fst r = 95 then scanner_nextchar (fst r) (snd r) else r)"

function scan_exponent :: "int \<Rightarrow> 32 word \<Rightarrow> scanner \<Rightarrow> fault + int \<times> 32 word \<times> scanner" where
  "scan_exponent c exponent s =
     (case digit_value False c of
        Inl e \<Rightarrow> Inl e
      | Inr d \<Rightarrow>
          if d < 10 then
            scan_exponent (fst (skip_exponent_underscore (scanner_nextchar c s)))
                          (10 * exponent + d)
                          (snd (skip_exponent_underscore (scanner_nextchar c s)))
          else Inr (c, exponent, s))"
  by pat_completeness auto

text \<open>The two loops that compute \<^verbatim>\<open>base^exponent\<close> by squaring.\<close>

function power_natural :: "32 word \<Rightarrow> 64 word \<Rightarrow> 64 word \<Rightarrow> 64 word" where
  "power_natural exponent exponent_value multiplier =
     (if exponent \<noteq> 0 then
        power_natural (drop_bit 1 exponent)
          (if exponent AND 1 \<noteq> 0 then exponent_value * multiplier else exponent_value)
          (multiplier * multiplier)
      else exponent_value)"
  by pat_completeness auto

function power_real :: "32 word \<Rightarrow> real \<Rightarrow> real \<Rightarrow> real" where
  "power_real exponent exponent_value multiplier =
     (if exponent \<noteq> 0 then
        power_real (drop_bit 1 exponent)
          (if exponent AND 1 \<noteq> 0 then exponent_value * multiplier else exponent_value)
          (multiplier * multiplier)
      else exponent_value)"
  by pat_completeness auto

text \<open>The end of the number branch: pushing back the character after the number.\<close>

definition number_return :: "srcpos \<Rightarrow> int \<Rightarrow> number \<Rightarrow> real \<Rightarrow> scanner \<Rightarrow> fault + token \<times> scanner" where
  "number_return pos c n real_value s =
     (case scanner_ungetchar c s of
        Inl e \<Rightarrow> Inl e
      | Inr s1 \<Rightarrow>
          (let s2 = s1\<lparr>had_space_after := isspace c\<rparr>
           in if floating_point n then Inr (tokREAL, s2\<lparr>scanned := Some (Real pos real_value)\<rparr>)
              else Inr (tokINTEGER, s2\<lparr>scanned := Some (Natural pos (natural_value n))\<rparr>)))"

text \<open>The exponent: \<^verbatim>\<open>e\<close> or \<^verbatim>\<open>E\<close>, a sign, the digits, and the multiplication.\<close>

definition scan_exponent_part ::
  "srcpos \<Rightarrow> int \<Rightarrow> number \<Rightarrow> real \<Rightarrow> scanner \<Rightarrow> fault + token \<times> scanner" where
  "scan_exponent_part pos c n real_value s =
     (let r = scanner_nextchar c s;
          negative_exponent = (fst r = 45);
          n1 = (if fst r = 45 then n\<lparr>floating_point := True\<rparr> else n);
          r1 = (if fst r = 43 \<or> fst r = 45 then scanner_nextchar (fst r) (snd r) else r)
      in case scan_exponent (fst r1) 0 (snd r1) of
           Inl e \<Rightarrow> Inl e
         | Inr x \<Rightarrow>
             if floating_point n1 then
               number_return pos (fst x) n1
                 (if negative_exponent
                  then real_value / power_real (fst (snd x)) 1 (real_of_int (uint (base n1)))
                  else real_value * power_real (fst (snd x)) 1 (real_of_int (uint (base n1))))
                 (snd (snd x))
             else
               number_return pos (fst x)
                 (n1\<lparr>natural_value :=
                       natural_value n1 * power_natural (fst (snd x)) 1 (ucast (base n1))\<rparr>)
                 real_value (snd (snd x)))"

text \<open>What follows the integral or fractional digits: an optional second \<^verbatim>\<open>#\<close>, an optional
  exponent, and the return of the token.\<close>

definition scan_number_end ::
  "srcpos \<Rightarrow> int \<Rightarrow> number \<Rightarrow> real \<Rightarrow> scanner \<Rightarrow> fault + token \<times> scanner" where
  "scan_number_end pos c n real_value s =
     (let r = (if c = 35 then scanner_nextchar c s else (c, s))
      in if fst r = 101 \<or> fst r = 69
         then scan_exponent_part pos (fst r) n real_value (snd r)
         else number_return pos (fst r) n real_value (snd r))"

text \<open>A \<^verbatim>\<open>.\<close> after the integral digits: a fraction if a digit follows, and otherwise the end
  of an integer, with the character after the point and the point pushed back.\<close>

definition scan_dot :: "srcpos \<Rightarrow> int \<Rightarrow> number \<Rightarrow> real \<Rightarrow> scanner \<Rightarrow> fault + token \<times> scanner" where
  "scan_dot pos c n real_value s =
     (let r = scanner_nextchar c s;
          mantissa_digit = fst r
      in case digit_value (digit_base64 n) mantissa_digit of
           Inl e \<Rightarrow> Inl e
         | Inr d \<Rightarrow>
             if d \<ge> base n then
               (case scanner_ungetchar mantissa_digit (snd r) of
                  Inl e \<Rightarrow> Inl e
                | Inr s1 \<Rightarrow>
                    (case scanner_ungetchar c s1 of
                       Inl e \<Rightarrow> Inl e
                     | Inr s2 \<Rightarrow>
                         Inr (tokINTEGER,
                              s2\<lparr>had_space_after := False,
                                 scanned := Some (Natural pos (natural_value n))\<rparr>)))
             else
               (case scan_fraction pos mantissa_digit n 1 real_value (snd r) of
                  Inl e \<Rightarrow> Inl e
                | Inr x \<Rightarrow>
                    scan_number_end pos (fst x) (n\<lparr>floating_point := True\<rparr>) (fst (snd x)) (snd (snd x))))"

definition scan_number :: "srcpos \<Rightarrow> int \<Rightarrow> string option \<Rightarrow> scanner \<Rightarrow> fault + token \<times> scanner" where
  "scan_number pos c b s =
     (case scan_based pos c (number_init b) s of
        Inl e \<Rightarrow> Inl e
      | Inr x \<Rightarrow>
          (let c1 = fst x; n = fst (snd x); s1 = snd (snd x);
               real_value = real_of_int (uint (natural_value n))
           in if blob n \<noteq> None then scan_blob_end pos c1 n s1
              else if c1 = 46 then scan_dot pos c1 n real_value s1
              else scan_number_end pos c1 n real_value s1))"

lemma digit_step_based [simp]: "based_number (digit_step d n) = based_number n"
  by (simp add: digit_step_def blob_emit_def Let_def)

lemma scan_digits_based:
  "scan_digits pos c n s = Inr r \<Longrightarrow> based_number (fst (snd r)) = based_number n"
proof (induction pos c n s rule: scan_digits.induct)
  case (1 pos c n s)
  from "1.prems" obtain d where d: "digit_value (digit_base64 n) c = Inr d"
    by (subst (asm) scan_digits.simps) (auto split: sum.splits)
  show ?case
  proof (cases "d < base n \<or> (blob n \<noteq> None \<and> d < blob_base n)")
    case True
    with "1.prems" d
    have "scan_digits pos (fst (after_digit pos (blob n \<noteq> None) c s)) (digit_step d n)
            (snd (after_digit pos (blob n \<noteq> None) c s)) = Inr r"
      by (subst (asm) scan_digits.simps) simp
    with "1.IH" [OF d True] show ?thesis by simp
  next
    case False
    with "1.prems" d have "r = (c, n, s)"
      by (subst (asm) scan_digits.simps) auto
    then show ?thesis by simp
  qed
qed

termination scan_based
proof (relation "measure (\<lambda>(pos, c, n, s). if based_number n then 0 else 1)", goal_cases)
  case 1
  show ?case by simp
next
  case (2 pos c n s r)
  then have "\<not> based_number n"
    using scan_digits_based [of pos c n s r] by simp
  then show ?case by simp
qed

declare scan_based.simps [simp del]

termination scan_fraction
proof (relation "measure (\<lambda>(pos, c, n, cp, rv, s). input_measure (c, s))", goal_cases)
  case 1
  show ?case by simp
next
  case (2 pos c n comma_position real_value s d)
  then have "c \<noteq> EOF" by (simp add: digit_value_Inr)
  then have "2 * remaining s < input_measure (c, s)"
    by (simp add: input_measure_def)
  moreover have "input_measure (skip_underscore pos ''Two _ characters look really ugly'' (scanner_nextchar c s))
                   \<le> 2 * remaining s"
    using measure_skip_underscore [of pos _ "scanner_nextchar c s"] measure_nextchar [of c s]
    by (rule order_trans)
  ultimately have "input_measure (skip_underscore pos ''Two _ characters look really ugly'' (scanner_nextchar c s))
                     < input_measure (c, s)"
    by simp
  then show ?case by simp
qed

declare scan_fraction.simps [simp del]

lemma measure_skip_exponent_underscore:
  "input_measure (skip_exponent_underscore r) \<le> input_measure r"
proof (cases "fst r = 95")
  case True
  have "input_measure (scanner_nextchar 95 (snd r)) \<le> input_measure r"
    by (rule measure_nextchar_le)
  with True show ?thesis by (simp add: skip_exponent_underscore_def)
next
  case False
  then show ?thesis by (simp add: skip_exponent_underscore_def)
qed

termination scan_exponent
proof (relation "measure (\<lambda>(c, e, s). input_measure (c, s))", goal_cases)
  case 1
  show ?case by simp
next
  case (2 c exponent s d)
  then have "c \<noteq> EOF" by (simp add: digit_value_Inr)
  then have "2 * remaining s < input_measure (c, s)"
    by (simp add: input_measure_def)
  moreover have "input_measure (skip_exponent_underscore (scanner_nextchar c s)) \<le> 2 * remaining s"
    using measure_skip_exponent_underscore [of "scanner_nextchar c s"] measure_nextchar [of c s]
    by (rule order_trans)
  ultimately have "input_measure (skip_exponent_underscore (scanner_nextchar c s)) < input_measure (c, s)"
    by simp
  then show ?case by simp
qed

declare scan_exponent.simps [simp del]

lemma unat_drop_bit_less:
  assumes "(w :: 32 word) \<noteq> 0"
  shows "unat (drop_bit (Suc 0) w) < unat w"
proof -
  from assms have "0 < unat w" by (simp add: unat_gt_0)
  then have "unat w div 2 < unat w" by simp
  moreover have "unat (drop_bit (Suc 0) w) = drop_bit (Suc 0) (unat w)"
    by (rule unat_drop_bit_eq)
  moreover have "drop_bit (Suc 0) (unat w) = unat w div 2"
    by (simp add: drop_bit_eq_div)
  ultimately show ?thesis by simp
qed

termination power_natural
  by (relation "measure (\<lambda>(e, v, m). unat e)") (simp_all add: unat_drop_bit_less)

termination power_real
  by (relation "measure (\<lambda>(e, v, m). unat e)") (simp_all add: unat_drop_bit_less)

declare power_natural.simps [simp del]
declare power_real.simps [simp del]

section \<open>scanner.c: names, texts, characters and operators\<close>

text \<open>
  Modelled from the spec: utf8.h is not among the sources. The spec says that a name
  starts with an alphabetic character or a UTF-8 sequence and goes on with
  alphanumerics, underscores and UTF-8 continuation bytes, and that a character
  constant must hold exactly one Unicode scalar by UTF-8 code-point count. The tests
  look at the byte that the \<^verbatim>\<open>int\<close> holds: a first byte of a sequence is 0xC0 to 0xFD, a
  continuation byte is 0x80 to 0xBF; \<open>EOF\<close>, which holds the byte 0xFF, is neither.
\<close>

definition utf8_is_first :: "int \<Rightarrow> bool" where
  "utf8_is_first c = (192 \<le> c mod 256 \<and> c mod 256 \<le> 253)"

definition utf8_is_next :: "int \<Rightarrow> bool" where
  "utf8_is_next c = (128 \<le> c mod 256 \<and> c mod 256 \<le> 191)"

definition utf8_isalpha :: "int \<Rightarrow> bool" where
  "utf8_isalpha c = (isalpha c \<or> utf8_is_first c \<or> utf8_is_next c)"

definition utf8_length :: "string \<Rightarrow> nat" where
  "utf8_length data = length (filter (\<lambda>b. \<not> utf8_is_next (char_int b)) data)"

fun utf8_next_bits :: "nat \<Rightarrow> string \<Rightarrow> nat" where
  "utf8_next_bits code [] = code"
| "utf8_next_bits code (b # bs) =
     (if utf8_is_next (char_int b) then utf8_next_bits (code * 64 + of_char b mod 64) bs
      else code)"

definition utf8_code :: "string \<Rightarrow> 32 word" where
  "utf8_code data =
     (case data of
        [] \<Rightarrow> 0
      | b # bs \<Rightarrow>
          (let v = (of_char b :: nat)
           in if v < 128 then of_nat v
              else if v < 224 then of_nat (utf8_next_bits (v mod 32) (take 1 bs))
              else if v < 240 then of_nat (utf8_next_bits (v mod 16) (take 2 bs))
              else of_nat (utf8_next_bits (v mod 8) (take 3 bs))))"

text \<open>The loop that reads the bytes of a name.\<close>

function scan_name_chars :: "int \<times> scanner \<Rightarrow> int \<times> scanner" where
  "scan_name_chars r =
     (if isalnum (fst r) \<or> fst r = 95 \<or> utf8_is_first (fst r) \<or> utf8_is_next (fst r)
      then scan_name_chars (scanner_nextchar (fst r) (snd r))
      else r)"
  by pat_completeness auto

text \<open>
  Modelled from the spec: \<^verbatim>\<open>name_compare\<close> is \<^verbatim>\<open>blob_compare\<close> (blob.c, not among the
  sources), which the spec says is lexicographic over bytes; it returns 0 exactly for
  equal byte sequences.
\<close>

definition name_compare_eq :: "string \<Rightarrow> string \<Rightarrow> bool" where
  "name_compare_eq a b = (a = b)"

definition scan_name :: "int \<Rightarrow> scanner \<Rightarrow> fault + token \<times> scanner" where
  "scan_name c s =
     (let r = scan_name_chars (c, s)
      in case scanner_ungetchar (fst r) (snd r) of
           Inl e \<Rightarrow> Inl e
         | Inr s1 \<Rightarrow>
             (let s2 = s1\<lparr>had_space_after := isspace (fst r)\<rparr>
              in case scanner_normalize (source s2) of
                   Inl e \<Rightarrow> Inl e
                 | Inr nm \<Rightarrow>
                     (let s3 = s2\<lparr>scanned := Some (Name (source_position s2) nm)\<rparr>
                      in case scanner_syntax s3 of
                           None \<Rightarrow> Inr (tokNAME, s3)
                         | Some syn \<Rightarrow>
                             (case syntax_is_block syn nm of
                                Some closing \<Rightarrow> Inr (tokOPEN, s3\<lparr>block_close := Some closing\<rparr>)
                              | None \<Rightarrow>
                                  (case block_close s3 of
                                     None \<Rightarrow> Inr (tokNAME, s3)
                                   | Some bc \<Rightarrow>
                                       if name_compare_eq nm bc
                                       then Inr (tokCLOSE, s3\<lparr>block_close := None\<rparr>)
                                       else Inr (tokNAME, s3))))))"

text \<open>\<^verbatim>\<open>scanner_character\<close>: the character of a quoted text, with an error unless the text
  holds exactly one code point.\<close>

definition scanner_character :: "srcpos \<Rightarrow> string \<Rightarrow> scanner \<Rightarrow> scanned \<times> scanner" where
  "scanner_character pos text s =
     (Character pos (utf8_code text),
      if utf8_length text \<noteq> 1
      then scanner_error pos ''Character constant '%t' should contain one character'' [ArgText text] s
      else s)"

text \<open>
  The loop of a quoted text, entered with the character after the opening quote. The
  closing character \<^verbatim>\<open>eos\<close> is the opening one, a double or a single quote:
  \<open>double_quote\<close> tells which.
\<close>

definition eos_of :: "bool \<Rightarrow> int" where
  "eos_of double_quote = (if double_quote then 34 else 39)"

definition text_return :: "srcpos \<Rightarrow> bool \<Rightarrow> int \<Rightarrow> string \<Rightarrow> scanner \<Rightarrow> fault + token \<times> scanner" where
  "text_return pos double_quote c text s =
     (case scanner_ungetchar c s of
        Inl e \<Rightarrow> Inl e
      | Inr s1 \<Rightarrow>
          (let s2 = s1\<lparr>had_space_after := isspace c\<rparr>
           in if eos_of double_quote = 34 then Inr (tokTEXT, s2\<lparr>scanned := Some (Text pos text)\<rparr>)
              else Inr (tokCHARACTER,
                        (snd (scanner_character pos text s2))
                          \<lparr>scanned := Some (fst (scanner_character pos text s2))\<rparr>)))"

definition text_eof :: "srcpos \<Rightarrow> int \<Rightarrow> scanner \<Rightarrow> scanner" where
  "text_eof pos c s =
     (if c = EOF
      then (scanner_error pos ''End of input in the middle of a text'' [] s)\<lparr>had_space_after := False\<rparr>
      else s)"

function scan_text :: "srcpos \<Rightarrow> bool \<Rightarrow> int \<Rightarrow> string \<Rightarrow> scanner \<Rightarrow> fault + token \<times> scanner" where
  "scan_text pos double_quote c text s =
     (if (if c = EOF then eos_of double_quote else c) = eos_of double_quote then
        (if fst (scanner_nextchar (eos_of double_quote) (text_eof pos c s)) \<noteq> eos_of double_quote then
           text_return pos double_quote
             (fst (scanner_nextchar (eos_of double_quote) (text_eof pos c s))) text
             (snd (scanner_nextchar (eos_of double_quote) (text_eof pos c s)))
         else
           scan_text pos double_quote
             (fst (scanner_nextchar (eos_of double_quote)
                    (snd (scanner_nextchar (eos_of double_quote) (text_eof pos c s)))))
             (blob_append_data text [int_char (eos_of double_quote)])
             (snd (scanner_nextchar (eos_of double_quote)
                    (snd (scanner_nextchar (eos_of double_quote) (text_eof pos c s))))))
      else
        scan_text pos double_quote (fst (scanner_nextchar c s))
                  (blob_append_data text [int_char c]) (snd (scanner_nextchar c s)))"
  by pat_completeness auto

text \<open>The two loops that read an operator: with a syntax table, and without one.\<close>

function scan_operator :: "syntax_table \<Rightarrow> int \<Rightarrow> scanner \<Rightarrow> token \<times> int \<times> scanner" where
  "scan_operator syn c s =
     (if ispunct c \<and> c \<noteq> 39 \<and> c \<noteq> 34 \<and> c \<noteq> EOF \<and> syntax_is_operator syn (source s) then
        (case syntax_is_block syn (source (snd (scanner_nextchar c s))) of
           Some closing \<Rightarrow>
             (tokOPEN, fst (scanner_nextchar c s),
              (snd (scanner_nextchar c s))\<lparr>block_close := Some closing\<rparr>)
         | None \<Rightarrow>
             if (case block_close (snd (scanner_nextchar c s)) of
                   None \<Rightarrow> False
                 | Some bc \<Rightarrow> name_compare_eq (source (snd (scanner_nextchar c s))) bc)
             then (tokCLOSE, fst (scanner_nextchar c s),
                   (snd (scanner_nextchar c s))\<lparr>block_close := None\<rparr>)
             else scan_operator syn (fst (scanner_nextchar c s)) (snd (scanner_nextchar c s)))
      else (tokSYMBOL, c, s))"
  by pat_completeness auto

function scan_punct :: "int \<times> scanner \<Rightarrow> int \<times> scanner" where
  "scan_punct r =
     (if ispunct (fst r) \<and> fst r \<noteq> 39 \<and> fst r \<noteq> 34 \<and> fst r \<noteq> EOF
      then scan_punct (scanner_nextchar (fst r) (snd r))
      else r)"
  by pat_completeness auto

definition scan_symbol :: "int \<Rightarrow> scanner \<Rightarrow> fault + token \<times> scanner" where
  "scan_symbol c s =
     (let x = (case scanner_syntax s of
                 Some syn \<Rightarrow> scan_operator syn c s
               | None \<Rightarrow> (tokSYMBOL, scan_punct (c, s)))
      in case scanner_ungetchar (fst (snd x)) (snd (snd x)) of
           Inl e \<Rightarrow> Inl e
         | Inr s1 \<Rightarrow>
             (let s2 = s1\<lparr>had_space_after := isspace (fst (snd x))\<rparr>
              in case scanner_normalize (source s2) of
                   Inl e \<Rightarrow> Inl e
                 | Inr nm \<Rightarrow> Inr (fst x, s2\<lparr>scanned := Some (Name (source_position s2) nm)\<rparr>)))"

section \<open>scanner.c: reading a token\<close>

text \<open>
  The part of \<^verbatim>\<open>scanner_read\<close> after the white space, entered with the first character \<open>c\<close>
  of the token: the spelling is cleared, the position is taken, and the branches for
  blobs and numbers, names, texts and operators follow.
\<close>

definition scanner_token :: "int \<Rightarrow> scanner \<Rightarrow> fault + token \<times> scanner" where
  "scanner_token c s0 =
     (let s = s0\<lparr>source := blob_range (source s0) 0 0\<rparr>;
          pos = scanner_position s;
          b = (if c = 36 then Some [] else None);
          r = (if c = 36 then scanner_nextchar c s else (c, s))
      in if b \<noteq> None \<or> isdigit (fst r) then scan_number pos (fst r) b (snd r)
         else if utf8_isalpha (fst r) then scan_name (fst r) (snd r)
         else if fst r = 34 \<or> fst r = 39 then
           scan_text pos (fst r = 34) (fst (scanner_nextchar (fst r) (snd r))) []
                     (snd (scanner_nextchar (fst r) (snd r)))
         else scan_symbol (fst r) (snd r))"

text \<open>Reading the next character and skipping the white space before a token.\<close>

definition scanner_spaces :: "srcpos \<Rightarrow> scanner \<Rightarrow> int \<times> scanner" where
  "scanner_spaces pos s =
     skip_spaces pos (fst (scanner_getchar s)) ((snd (scanner_getchar s))\<lparr>had_space_before := False\<rparr>)"

definition scanner_read :: "scanner \<Rightarrow> fault + token \<times> scanner" where
  "scanner_read s0 =
     (let pos = scanner_position s0;
          s = s0\<lparr>source_position := pos, source := [], scanned := None\<rparr>
      in if \<not> reader s then Inr (tokEOF, s)
         else
           (let s1 = s\<lparr>had_space_before := True\<rparr>
            in if indents_length (indents s1) > 0
                  \<and> (case indents_top (indents s1) of Inl e \<Rightarrow> False | Inr t \<Rightarrow> t > indent s1)
               then
                 (case indents_pop (indents s1) of
                    Inl e \<Rightarrow> Inl e
                  | Inr popped \<Rightarrow> Inr (tokUNINDENT, s1\<lparr>indents := popped\<rparr>))
               else
                 (let r1 = scanner_spaces pos s1
                  in if checking_indent (snd r1) then scanner_indent pos (fst r1) (snd r1)
                     else if \<not> reader (snd r1) then Inr (tokEOF, snd r1)
                     else scanner_token (fst r1) (snd r1))))"

text \<open>
  The two functions a parser calls around a parenthesized block; the first is the only
  place that sets \<^verbatim>\<open>setting_indent\<close>. The saved value is the indent, complemented bit by
  bit when \<^verbatim>\<open>setting_indent\<close> was already set, which the second recognizes by the sign
  of the value read as an \<^verbatim>\<open>int\<close>.
\<close>

definition scanner_open_parenthese :: "scanner \<Rightarrow> 32 word \<times> scanner" where
  "scanner_open_parenthese s =
     ((if setting_indent s then NOT (indent s) else indent s), s\<lparr>setting_indent := True\<rparr>)"

definition scanner_close_parenthese :: "32 word \<Rightarrow> scanner \<Rightarrow> fault + scanner" where
  "scanner_close_parenthese old_indent s0 =
     (let was_set = (sint old_indent < 0);
          s = s0\<lparr>indent := (if was_set then NOT old_indent else old_indent)\<rparr>
      in if \<not> setting_indent s then
           (case indents_top (indents s) of
              Inl e \<Rightarrow> Inl e
            | Inr t \<Rightarrow>
                if indent s = t then
                  (case indents_pop (indents s) of
                     Inl e \<Rightarrow> Inl e
                   | Inr popped \<Rightarrow> Inr (s\<lparr>indents := popped, setting_indent := was_set\<rparr>))
                else Inr (s\<lparr>setting_indent := was_set\<rparr>))
         else Inr (s\<lparr>setting_indent := was_set\<rparr>))"

text \<open>
  Reading tokens one after the other, as a parser does, for at most \<open>k\<close> reads: each read
  gives its token, the scanned value and the spelling; the run stops after \<^verbatim>\<open>tokEOF\<close> and
  at a fault.
\<close>

fun scanner_run :: "nat \<Rightarrow> scanner \<Rightarrow> (fault + token \<times> scanned option \<times> string) list" where
  "scanner_run 0 s = []"
| "scanner_run (Suc k) s =
     (case scanner_read s of
        Inl e \<Rightarrow> [Inl e]
      | Inr x \<Rightarrow>
          Inr (fst x, scanned (snd x), source (snd x))
            # (if fst x = tokEOF then [] else scanner_run k (snd x)))"

text \<open>
  A scanner without a syntax table at position 0, open on a stream that will deliver
  the bytes \<open>input\<close>, with no errors buffer active and nothing displayed yet.
\<close>

definition scanner_on :: "string \<Rightarrow> scanner" where
  "scanner_on input =
     (scanner_new 0 None \<lparr>errors = None, displayed = []\<rparr>)\<lparr>reader := True, stream := input\<rparr>"

lemma utf8_not_EOF: "utf8_is_first c \<or> utf8_is_next c \<Longrightarrow> c \<noteq> EOF"
  by (auto simp: utf8_is_first_def utf8_is_next_def EOF_def)

lemma isalnum_not_EOF: "isalnum c \<Longrightarrow> c \<noteq> EOF"
  by (auto simp: isalnum_def isalpha_def isupper_def islower_def isdigit_def EOF_def)

termination scan_name_chars
proof (relation "measure input_measure", goal_cases)
  case 1
  show ?case by simp
next
  case (2 r)
  then have "fst r \<noteq> EOF"
    using utf8_not_EOF [of "fst r"] isalnum_not_EOF [of "fst r"] by (auto simp: EOF_def)
  then have "input_measure (scanner_nextchar (fst r) (snd r)) < input_measure r"
    by (rule measure_nextchar_less)
  then show ?case by simp
qed

declare scan_name_chars.simps [simp del]

lemma remaining_text_eof [simp]: "remaining (text_eof pos c s) = remaining s"
  by (simp add: text_eof_def remaining_def scanner_error_def)

lemma remaining_nextchar_less:
  "fst (scanner_nextchar d s) \<noteq> EOF \<Longrightarrow> remaining (snd (scanner_nextchar d s)) < remaining s"
  using remaining_getchar_less [of "scanner_consume d s"] by (simp add: scanner_nextchar_def)

lemma eos_of_not_EOF [simp]: "eos_of dq \<noteq> EOF"
  by (simp add: eos_of_def EOF_def)

termination scan_text
proof (relation "measure (\<lambda>(pos, dq, c, tx, s). input_measure (c, s))", goal_cases)
  case 1
  show ?case by simp
next
  case (2 pos dq c tx s)
  define s1 where "s1 = snd (scanner_nextchar (eos_of dq) (text_eof pos c s))"
  from 2 have "fst (scanner_nextchar (eos_of dq) (text_eof pos c s)) \<noteq> EOF" by simp
  then have "remaining s1 < remaining s"
    using remaining_nextchar_less [of "eos_of dq" "text_eof pos c s"] by (simp add: s1_def)
  moreover have "input_measure (scanner_nextchar (eos_of dq) s1) \<le> 2 * remaining s1"
    by (rule measure_nextchar)
  moreover have "2 * remaining s \<le> input_measure (c, s)"
    by (simp add: input_measure_def)
  ultimately have "input_measure (scanner_nextchar (eos_of dq) s1) < input_measure (c, s)"
    by linarith
  then show ?case by (simp add: s1_def)
next
  case (3 pos dq c tx s)
  then have "c \<noteq> EOF" by (auto split: if_splits)
  then have "input_measure (scanner_nextchar c (snd (c, s))) < input_measure (c, s)"
    using measure_nextchar_less [of "(c, s)" c] by simp
  then show ?case by simp
qed

declare scan_text.simps [simp del]

lemma ispunct_not_EOF: "ispunct c \<Longrightarrow> c \<noteq> EOF"
  by (auto simp: ispunct_def EOF_def)

termination scan_operator
proof (relation "measure (\<lambda>(syn, c, s). input_measure (c, s))", goal_cases)
  case 1
  show ?case by simp
next
  case (2 syn c s)
  then have "c \<noteq> EOF" by simp
  then have "input_measure (scanner_nextchar c (snd (c, s))) < input_measure (c, s)"
    using measure_nextchar_less [of "(c, s)" c] by simp
  then show ?case by simp
qed

declare scan_operator.simps [simp del]

termination scan_punct
proof (relation "measure input_measure", goal_cases)
  case 1
  show ?case by simp
next
  case (2 r)
  then have "input_measure (scanner_nextchar (fst r) (snd r)) < input_measure r"
    by (simp add: measure_nextchar_less)
  then show ?case by simp
qed

declare scan_punct.simps [simp del]

section \<open>Properties of the error sink\<close>

lemma error_display_all_append:
  "error_display_all es k = k\<lparr>displayed := displayed k @ es\<rparr>"
  by (induction es arbitrary: k) (simp_all add: error_display_def)

text \<open>
  Claim C10. A call \<^verbatim>\<open>error(pos, fmt, ...)\<close> makes the formatted message a text node tagged
  with \<^verbatim>\<open>pos\<close>; the node is pushed at the end of the active errors buffer when there is
  one, and displayed at once when there is none. \<^verbatim>\<open>errors_commit(prev)\<close> appends the
  messages of the current buffer to \<^verbatim>\<open>prev\<close>, which becomes the current buffer, when
  \<^verbatim>\<open>prev\<close> is not null, and displays them in order and leaves no buffer when \<^verbatim>\<open>prev\<close>
  is null.
\<close>

theorem error_and_commit:
  "text_position (text_vprintf pos fmt va) = pos
   \<and> (\<forall>es. errors k = Some es \<longrightarrow>
          error pos fmt va k = k\<lparr>errors := Some (es @ [text_vprintf pos fmt va])\<rparr>)
   \<and> (errors k = None \<longrightarrow>
          error pos fmt va k = k\<lparr>displayed := displayed k @ [text_vprintf pos fmt va]\<rparr>)
   \<and> (\<forall>cur. errors k = Some cur \<longrightarrow>
          errors_commit (Some prev) k = Inr (k\<lparr>errors := Some (prev @ cur)\<rparr>)
          \<and> errors_commit None k = Inr (k\<lparr>displayed := displayed k @ cur, errors := None\<rparr>))"
  by (simp add: error_def errorv_def errors_push_def error_display_def text_vprintf_def
        errors_commit_def errors_append_def errors_display_def error_display_all_append)

theorem error_and_commit_witness:
  "error 7 ''bad'' [] \<lparr>errors = Some [Text_Node 1 ''old'' []], displayed = []\<rparr>
     = \<lparr>errors = Some [Text_Node 1 ''old'' [], Text_Node 7 ''bad'' []], displayed = []\<rparr>
   \<and> error 7 ''bad'' [] \<lparr>errors = None, displayed = []\<rparr>
     = \<lparr>errors = None, displayed = [Text_Node 7 ''bad'' []]\<rparr>
   \<and> errors_commit (Some [Text_Node 1 ''old'' []])
         \<lparr>errors = Some [Text_Node 7 ''bad'' []], displayed = []\<rparr>
     = Inr \<lparr>errors = Some [Text_Node 1 ''old'' [], Text_Node 7 ''bad'' []], displayed = []\<rparr>
   \<and> errors_commit None \<lparr>errors = Some [Text_Node 7 ''bad'' []], displayed = []\<rparr>
     = Inr \<lparr>errors = None, displayed = [Text_Node 7 ''bad'' []]\<rparr>"
  using error_and_commit [of 7 "''bad''" "[]" "\<lparr>errors = Some [Text_Node 1 ''old'' []], displayed = []\<rparr>"]
        error_and_commit [of 7 "''bad''" "[]" "\<lparr>errors = None, displayed = []\<rparr>"]
        error_and_commit [of _ _ _ "\<lparr>errors = Some [Text_Node 7 ''bad'' []], displayed = []\<rparr>"
                             "[Text_Node 1 ''old'' []]"]
  by (simp add: text_vprintf_def)

section \<open>Properties of names\<close>

text \<open>No two consecutive bytes are underscores.\<close>

fun no_double_underscore :: "string \<Rightarrow> bool" where
  "no_double_underscore (a # b # cs) =
     (\<not> (a = CHR ''_'' \<and> b = CHR ''_'') \<and> no_double_underscore (b # cs))"
| "no_double_underscore cs = True"

lemma no_double_underscore_nth:
  "no_double_underscore xs \<longleftrightarrow>
     (\<forall>i. Suc i < length xs \<longrightarrow> \<not> (xs ! i = CHR ''_'' \<and> xs ! Suc i = CHR ''_''))"
proof (induction xs rule: no_double_underscore.induct)
  case (1 a b cs)
  show ?case
  proof
    assume l: "no_double_underscore (a # b # cs)"
    show "\<forall>i. Suc i < length (a # b # cs) \<longrightarrow>
            \<not> ((a # b # cs) ! i = CHR ''_'' \<and> (a # b # cs) ! Suc i = CHR ''_'')"
    proof (intro allI impI)
      fix i assume i: "Suc i < length (a # b # cs)"
      show "\<not> ((a # b # cs) ! i = CHR ''_'' \<and> (a # b # cs) ! Suc i = CHR ''_'')"
      proof (cases i)
        case 0
        with l show ?thesis by simp
      next
        case (Suc j)
        with i l 1 show ?thesis by simp
      qed
    qed
  next
    assume r: "\<forall>i. Suc i < length (a # b # cs) \<longrightarrow>
            \<not> ((a # b # cs) ! i = CHR ''_'' \<and> (a # b # cs) ! Suc i = CHR ''_'')"
    from r [rule_format, of 0] have "\<not> (a = CHR ''_'' \<and> b = CHR ''_'')" by simp
    moreover have "\<forall>i. Suc i < length (b # cs) \<longrightarrow>
            \<not> ((b # cs) ! i = CHR ''_'' \<and> (b # cs) ! Suc i = CHR ''_'')"
    proof (intro allI impI)
      fix i assume "Suc i < length (b # cs)"
      with r [rule_format, of "Suc i"]
      show "\<not> ((b # cs) ! i = CHR ''_'' \<and> (b # cs) ! Suc i = CHR ''_'')" by simp
    qed
    ultimately show "no_double_underscore (a # b # cs)" using 1 by simp
  qed
qed simp_all

lemma name_alpha_loop_iff:
  "name_alpha_loop h xs \<longleftrightarrow>
     (\<forall>c \<in> set xs. isalnum (char_int c) \<or> c = CHR ''_'')
     \<and> no_double_underscore xs
     \<and> (h \<longrightarrow> xs = [] \<or> hd xs \<noteq> CHR ''_'')"
proof (induction h xs rule: name_alpha_loop.induct)
  case (1 h)
  show ?case by simp
next
  case (2 h c cs)
  show ?case
  proof (cases cs)
    case Nil
    then show ?thesis by auto
  next
    case (Cons d ds)
    with 2 show ?thesis by auto
  qed
qed

lemma isalpha_not_ispunct: "isalpha c \<Longrightarrow> \<not> ispunct c"
  by (simp add: ispunct_def isalnum_def)

lemma isalpha_not_underscore: "isalpha (char_int c) \<Longrightarrow> c \<noteq> CHR ''_''"
  by (auto simp: isalpha_def isupper_def islower_def char_int_def)

text \<open>
  Claim C6, as the code has it. For a byte sequence whose first byte is alphabetic,
  \<^verbatim>\<open>name_is_valid\<close> returns true exactly when every later byte is alphanumeric or an
  underscore and no two consecutive bytes are underscores. It does not look at the last
  byte in any other way: a name may end with an underscore.
\<close>

theorem name_is_valid_alphabetic:
  assumes "data \<noteq> []" and "isalpha (char_int (hd data))"
  shows "name_is_valid data \<longleftrightarrow>
           (\<forall>c \<in> set (tl data). isalnum (char_int c) \<or> c = CHR ''_'')
           \<and> (\<forall>i. Suc i < length data \<longrightarrow>
                  \<not> (data ! i = CHR ''_'' \<and> data ! Suc i = CHR ''_''))"
proof -
  from assms obtain d ds where data: "data = d # ds" by (cases data) auto
  with assms have d: "isalpha (char_int d)" by simp
  then have "isalnum (char_int d)" by (simp add: isalnum_def)
  with d data show ?thesis
    using isalpha_not_ispunct [OF d] isalpha_not_underscore [OF d]
          no_double_underscore_nth [of data]
    by (simp add: name_is_valid_def name_alpha_loop_iff)
qed

theorem name_is_valid_alphabetic_witness:
  "''a_b'' \<noteq> [] \<and> isalpha (char_int (hd ''a_b'')) \<and> name_is_valid ''a_b''"
  using name_is_valid_alphabetic [of "''a_b''"]
  by (simp add: isalpha_def isupper_def islower_def isalnum_def isdigit_def char_int_def
        nth_Cons split: nat.splits)

text \<open>
  The claim as stated also requires that the sequence does not end with an underscore;
  \<^verbatim>\<open>name_is_valid\<close> accepts the letter \<^verbatim>\<open>a\<close> followed by an underscore.
\<close>

theorem name_is_valid_trailing_underscore:
  "isalpha (char_int (hd ''a_'')) \<and> name_is_valid ''a_'' \<and> last ''a_'' = CHR ''_''"
  by (simp add: name_is_valid_def isalpha_def isupper_def islower_def isalnum_def isdigit_def
        ispunct_def char_int_def)

section \<open>Properties of the normalization of names\<close>

text \<open>
  The normal form of the spec: the spelling with every underscore removed and every
  ASCII upper-case letter replaced by its lower-case form.
\<close>

definition normal_form_spec :: "string \<Rightarrow> string" where
  "normal_form_spec src =
     map (\<lambda>c. int_char (tolower (char_int c))) (filter (\<lambda>c. c \<noteq> CHR ''_'') src)"

lemma of_char_int_range: "0 \<le> (of_char c :: int) \<and> (of_char c :: int) < 256"
proof -
  have "0 \<le> (of_char c :: int) mod 256" by (rule pos_mod_sign) simp
  moreover have "(of_char c :: int) mod 256 < 256" by (rule pos_mod_bound) simp
  ultimately show ?thesis by (simp only: of_char_mod_256)
qed

lemma char_int_range: "- 128 \<le> char_int c \<and> char_int c \<le> 127"
  using of_char_int_range [of c] by (auto simp: char_int_def)

lemma int_char_char_int [simp]: "int_char (char_int c) = c"
proof -
  have "char_of (of_char c - (256 :: int)) = char_of (of_char c :: int)"
    by (simp add: char_of_eq_iff take_bit_eq_mod)
  then show ?thesis by (simp add: int_char_def char_int_def)
qed

lemma char_int_int_char: "- 128 \<le> i \<Longrightarrow> i \<le> 127 \<Longrightarrow> char_int (int_char i) = i"
proof -
  assume lo: "- 128 \<le> i" and hi: "i \<le> 127"
  have "i mod 256 = (if 0 \<le> i then i else i + 256)"
  proof (cases "0 \<le> i")
    case True
    with hi show ?thesis by simp
  next
    case False
    have "i mod 256 = (i + 256) mod 256" by simp
    also from lo False have "\<dots> = i + 256" by (intro mod_pos_pos_trivial) simp_all
    finally show ?thesis using False by simp
  qed
  with lo hi show ?thesis
    by (auto simp: char_int_def int_char_def)
qed

lemma tolower_range: "- 128 \<le> i \<Longrightarrow> i \<le> 127 \<Longrightarrow> - 128 \<le> tolower i \<and> tolower i \<le> 127"
  by (auto simp: tolower_def isupper_def)

lemma tolower_idem [simp]: "tolower (tolower i) = tolower i"
  by (auto simp: tolower_def isupper_def)

lemma char_int_lower [simp]:
  "char_int (int_char (tolower (char_int c))) = tolower (char_int c)"
  using char_int_range [of c] tolower_range [of "char_int c"]
  by (simp add: char_int_int_char)

lemma int_char_95: "int_char 95 = CHR ''_''"
  by code_simp

lemma char_int_underscore [simp]: "char_int c = 95 \<longleftrightarrow> c = CHR ''_''"
proof
  assume "char_int c = 95"
  then have "int_char (char_int c) = CHR ''_''" by (simp only: int_char_95)
  then show "c = CHR ''_''" by (simp only: int_char_char_int)
next
  assume "c = CHR ''_''"
  then show "char_int c = 95" by (simp add: char_int_def)
qed

lemma lower_not_underscore:
  "c \<noteq> CHR ''_'' \<Longrightarrow> int_char (tolower (char_int c)) \<noteq> CHR ''_''"
proof
  assume c: "c \<noteq> CHR ''_''" and "int_char (tolower (char_int c)) = CHR ''_''"
  then have "char_int (int_char (tolower (char_int c))) = 95" by simp
  then have "tolower (char_int c) = 95" by simp
  then have "char_int c = 95" by (auto simp: tolower_def isupper_def split: if_splits)
  with c show False by simp
qed

lemma normalize_check_eq:
  "normalize_check b k src =
     ((if src = [] then b
       else last src \<noteq> CHR ''_'' \<and> char_int (last src) = tolower (char_int (last src))),
      k + length (filter (\<lambda>c. c \<noteq> CHR ''_'') src))"
  by (induction src arbitrary: b k) (auto simp: Let_def)

lemma normalize_copy_eq:
  "dst + length (filter (\<lambda>c. c \<noteq> CHR ''_'') src) \<le> length result \<Longrightarrow>
   normalize_copy src dst result =
     take dst result @ normal_form_spec src
       @ drop (dst + length (filter (\<lambda>c. c \<noteq> CHR ''_'') src)) result"
proof (induction src arbitrary: dst result)
  case Nil
  then show ?case by (simp add: normal_form_spec_def)
next
  case (Cons c cs)
  show ?case
  proof (cases "c = CHR ''_''")
    case True
    with Cons show ?thesis by (simp add: normal_form_spec_def)
  next
    case False
    define v where "v = int_char (tolower (char_int c))"
    from False Cons.prems have lt: "dst < length result" by simp
    from False Cons.prems
    have "normalize_copy cs (dst + 1) (result[dst := v]) =
            take (dst + 1) (result[dst := v]) @ normal_form_spec cs
              @ drop (dst + 1 + length (filter (\<lambda>c. c \<noteq> CHR ''_'') cs)) (result[dst := v])"
      by (intro Cons.IH) simp
    moreover from lt have "take (dst + 1) (result[dst := v]) = take dst result @ [v]"
      by (simp add: take_Suc_conv_app_nth)
    ultimately show ?thesis
      using False by (simp add: normal_form_spec_def v_def)
  qed
qed

lemma name_punct_loop_iff: "name_punct_loop xs \<longleftrightarrow> (\<forall>c \<in> set xs. ispunct (char_int c))"
  by (induction xs) auto

lemma no_double_underscore_take: "no_double_underscore xs \<Longrightarrow> no_double_underscore (take n xs)"
  by (simp add: no_double_underscore_nth)

lemma name_is_valid_take:
  assumes "name_is_valid x" and "0 < n"
  shows "name_is_valid (take n x)"
proof -
  from assms obtain d ds where x: "x = d # ds"
    by (cases x) (auto simp: name_is_valid_def)
  from \<open>0 < n\<close> obtain m where n: "n = Suc m" by (cases n) auto
  have sub: "set (take m ds) \<subseteq> set ds" by (rule set_take_subset)
  show ?thesis
  proof (cases "ispunct (char_int d)")
    case True
    with assms x n sub show ?thesis
      by (auto simp: name_is_valid_def name_punct_loop_iff)
  next
    case np: False
    show ?thesis
    proof (cases "isalpha (char_int d)")
      case True
      from assms(1) x np True have "name_alpha_loop True (d # ds)"
        by (simp add: name_is_valid_def)
      then have "name_alpha_loop True (take n (d # ds))"
        using no_double_underscore_take [of "d # ds" n] n set_take_subset [of n "d # ds"]
        by (auto simp: name_alpha_loop_iff simp del: no_double_underscore.simps)
      with np True x n show ?thesis by (simp add: name_is_valid_def)
    next
      case False
      with assms(1) x np have "ds = []"
        by (simp add: name_is_valid_def split: if_splits)
      with assms(1) x n show ?thesis by simp
    qed
  qed
qed

lemma no_underscore_no_double: "CHR ''_'' \<notin> set xs \<Longrightarrow> no_double_underscore xs"
  by (induction xs rule: no_double_underscore.induct) auto

lemma isalnum_tolower: "isalnum i \<Longrightarrow> isalnum (tolower i)"
  by (auto simp: isalnum_def isalpha_def isupper_def islower_def isdigit_def tolower_def)

lemma isalpha_tolower: "isalpha i \<Longrightarrow> isalpha (tolower i)"
  by (auto simp: isalpha_def isupper_def islower_def tolower_def)

lemma ispunct_tolower: "ispunct i \<Longrightarrow> tolower i = i"
  by (auto simp: ispunct_def isalnum_def isalpha_def isupper_def tolower_def)

lemma normal_form_spec_valid:
  assumes "name_is_valid x" and "normal_form_spec x \<noteq> []"
  shows "name_is_valid (normal_form_spec x)"
proof -
  from assms obtain d ds where x: "x = d # ds"
    by (cases x) (auto simp: name_is_valid_def)
  show ?thesis
  proof (cases "ispunct (char_int d)")
    case True
    with assms(1) x have all: "\<forall>c \<in> set x. ispunct (char_int c)"
      by (simp add: name_is_valid_def name_punct_loop_iff)
    then have "\<forall>c \<in> set (normal_form_spec x). ispunct (char_int c)"
      by (auto simp: normal_form_spec_def ispunct_tolower)
    moreover from assms(2) obtain e es where "normal_form_spec x = e # es"
      by (cases "normal_form_spec x") auto
    ultimately show ?thesis
      by (simp add: name_is_valid_def name_punct_loop_iff)
  next
    case np: False
    show ?thesis
    proof (cases "isalpha (char_int d)")
      case True
      from assms(1) x np True have loop: "name_alpha_loop True (d # ds)"
        by (simp add: name_is_valid_def)
      have d: "d \<noteq> CHR ''_''" using True by (rule isalpha_not_underscore)
      define e where "e = int_char (tolower (char_int d))"
      define es where "es = normal_form_spec ds"
      from d x have y: "normal_form_spec x = e # es"
        by (simp add: normal_form_spec_def e_def es_def)
      have e: "isalpha (char_int e)"
        using True by (simp add: e_def isalpha_tolower)
      have "\<forall>c \<in> set (normal_form_spec x). isalnum (char_int c) \<and> c \<noteq> CHR ''_''"
        using loop x
        by (auto simp: normal_form_spec_def name_alpha_loop_iff isalnum_tolower lower_not_underscore
                 simp del: no_double_underscore.simps)
      then have "name_alpha_loop True (normal_form_spec x)"
        using no_underscore_no_double [of "normal_form_spec x"] y
        by (auto simp: name_alpha_loop_iff simp del: no_double_underscore.simps)
      with y e show ?thesis
        using isalpha_not_ispunct [OF e] by (simp add: name_is_valid_def)
    next
      case False
      with assms(1) x np have "ds = []" and "d = CHR 0x0A \<or> d = CHR 0x09 \<or> d = CHR 0x08"
        by (simp_all add: name_is_valid_def split: if_splits)
      with x show ?thesis
        by (auto simp: normal_form_spec_def name_is_valid_def tolower_def isupper_def isalpha_def
              islower_def ispunct_def isalnum_def isdigit_def char_int_def int_char_def)
    qed
  qed
qed

text \<open>What \<^verbatim>\<open>scanner_normalize\<close> returns for a valid name, by the last byte of the name.\<close>

lemma scanner_normalize_cases:
  assumes "name_is_valid x"
  shows "scanner_normalize x =
           (if last x \<noteq> CHR ''_'' \<and> char_int (last x) = tolower (char_int (last x)) then Inr x
            else if normal_form_spec x = [] then Inl (AssertFailed ''Name must respect XL syntax'')
            else Inr (normal_form_spec x))"
proof -
  from assms have ne: "x \<noteq> []" by (auto simp: name_is_valid_def)
  define k where "k = length (filter (\<lambda>c. c \<noteq> CHR ''_'') x)"
  have len: "length (normal_form_spec x) = k" by (simp add: normal_form_spec_def k_def)
  show ?thesis
  proof (cases "last x \<noteq> CHR ''_'' \<and> char_int (last x) = tolower (char_int (last x))")
    case True
    with assms ne show ?thesis
      by (simp add: scanner_normalize_def normalize_check_eq)
  next
    case nn: False
    show ?thesis
    proof (cases "k = 0")
      case True
      with len have "normal_form_spec x = []" by simp
      with assms ne nn True show ?thesis
        by (auto simp: scanner_normalize_def normalize_check_eq name_new_def k_def name_is_valid_def)
    next
      case False
      then have valid: "name_is_valid (take k x)"
        using assms by (simp add: name_is_valid_take)
      have "k \<le> length x" by (simp add: k_def)
      then have "normalize_copy x 0 (take k x) = normal_form_spec x"
        using normalize_copy_eq [of 0 x "take k x"] by (simp add: k_def)
      moreover from False len have "normal_form_spec x \<noteq> []" by auto
      ultimately show ?thesis
        using assms ne nn valid
        by (auto simp: scanner_normalize_def normalize_check_eq name_new_def k_def)
    qed
  qed
qed

lemma normal_form_spec_last:
  assumes "normal_form_spec x \<noteq> []"
  shows "last (normal_form_spec x) \<noteq> CHR ''_''
         \<and> char_int (last (normal_form_spec x)) = tolower (char_int (last (normal_form_spec x)))"
proof -
  have "last (normal_form_spec x) \<in> set (normal_form_spec x)"
    using assms by (rule last_in_set)
  then obtain c where "c \<noteq> CHR ''_''" and "last (normal_form_spec x) = int_char (tolower (char_int c))"
    by (auto simp: normal_form_spec_def)
  then show ?thesis by (simp add: lower_not_underscore)
qed

text \<open>
  When \<^verbatim>\<open>scanner_normalize\<close> returns a name for a valid spelling, normalizing that name
  returns the same bytes; and it returns a name for every valid spelling except those
  made of underscores only.
\<close>

lemma scanner_normalize_idempotent:
  assumes "name_is_valid x"
  shows "case scanner_normalize x of
           Inr y \<Rightarrow> scanner_normalize y = Inr y
         | Inl e \<Rightarrow> set x \<subseteq> {CHR ''_''}"
proof (cases "last x \<noteq> CHR ''_'' \<and> char_int (last x) = tolower (char_int (last x))")
  case True
  with assms have "scanner_normalize x = Inr x" by (simp add: scanner_normalize_cases)
  then show ?thesis by simp
next
  case nn: False
  show ?thesis
  proof (cases "normal_form_spec x = []")
    case True
    then have "set x \<subseteq> {CHR ''_''}"
      by (auto simp: normal_form_spec_def filter_empty_conv)
    with assms nn True show ?thesis by (simp add: scanner_normalize_cases)
  next
    case False
    with assms have "name_is_valid (normal_form_spec x)" by (rule normal_form_spec_valid)
    then have "scanner_normalize (normal_form_spec x) = Inr (normal_form_spec x)"
      using normal_form_spec_last [OF False] by (simp add: scanner_normalize_cases)
    with assms nn False show ?thesis by (simp add: scanner_normalize_cases)
  qed
qed

lemma scanner_normalize_idempotent_example:
  "name_is_valid ''a_B'' \<and> scanner_normalize ''a_B'' = Inr ''ab''
   \<and> scanner_normalize ''ab'' = Inr ''ab''"
proof -
  have v: "name_is_valid ''a_B''" by code_simp
  have n: "scanner_normalize ''a_B'' = Inr ''ab''" by code_simp
  from scanner_normalize_idempotent [OF v] n v show ?thesis by simp
qed

text \<open>
  Claim C7 fails on the code for the valid names made of underscores only. An
  underscore is punctuation, so \<^verbatim>\<open>name_is_valid\<close> accepts \<^verbatim>\<open>_\<close> and \<^verbatim>\<open>__\<close> as operator names, the
  assertion at the head of \<^verbatim>\<open>scanner_normalize\<close> passes, and the scanner itself normalizes
  the symbol \<^verbatim>\<open>_\<close>. The first loop then counts no byte to keep, \<^verbatim>\<open>name_new\<close> is called with
  the size 0, and its own assertion that the new name is valid fails: the program
  stops, and there is no normal form to normalize again. For every other valid
  spelling normalizing is idempotent, as the lemma above shows.
\<close>

theorem scanner_normalize_underscore:
  "name_is_valid ''_''
   \<and> scanner_normalize ''_'' = Inl (AssertFailed ''Name must respect XL syntax'')
   \<and> name_is_valid ''__''
   \<and> scanner_normalize ''__'' = Inl (AssertFailed ''Name must respect XL syntax'')
   \<and> map (map_sum id fst) (scanner_run 1 (scanner_on ''_''))
       = [Inl (AssertFailed ''Name must respect XL syntax'')]"
  by code_simp

text \<open>
  Claim C5 fails on the code. The first loop of \<^verbatim>\<open>scanner_normalize\<close> assigns the flag
  \<^verbatim>\<open>normalized\<close> afresh for every byte, so the flag tells only whether the last byte is
  in normal form, and a spelling that ends with a lower-case letter or a digit is
  returned as it is: the name scanned for \<^verbatim>\<open>Foo\<close> is \<^verbatim>\<open>Foo\<close>, where the claim has \<^verbatim>\<open>foo\<close>, and
  the name scanned for \<^verbatim>\<open>a_b\<close> keeps its underscore.
\<close>

theorem scanner_normalize_last_byte_only:
  "scanner_normalize ''Foo'' = Inr ''Foo'' \<and> normal_form_spec ''Foo'' = ''foo''
   \<and> scanner_normalize ''a_b'' = Inr ''a_b'' \<and> normal_form_spec ''a_b'' = ''ab''"
  by code_simp

section \<open>Scanning the examples of the specification\<close>

text \<open>The result of the read that follows \<open>k\<close> earlier reads.\<close>

fun read_after :: "nat \<Rightarrow> scanner \<Rightarrow> fault + token \<times> scanner" where
  "read_after 0 s = scanner_read s"
| "read_after (Suc k) s =
     (case scanner_read s of
        Inl e \<Rightarrow> Inl e
      | Inr x \<Rightarrow> read_after k (snd x))"

lemma scanner_open_stream_new:
  "scanner_open_stream input (scanner_new 0 None \<lparr>errors = None, displayed = []\<rparr>)
     = Inr (scanner_on input)"
  by (simp add: scanner_open_stream_def scanner_new_def scanner_on_def)

text \<open>
  Claim C8 fails on the code. The digit loop appends a byte as soon as \<^verbatim>\<open>blob_bits\<close> has
  reached \<^verbatim>\<open>blob_maxbits\<close>, but it never takes the emitted bits off \<^verbatim>\<open>blob_bits\<close> and
  \<^verbatim>\<open>blob_chunk\<close>: from the second digit on every digit appends the low byte of the chunk,
  and the final flush appends the last byte once more. The blob scanned for
  \<^verbatim>\<open>$16#DEAD_BEEF$\<close> has eight bytes, not the four of the claim.
\<close>

theorem blob_dead_beef:
  "map_sum id (\<lambda>x. (fst x, scanned (snd x))) (scanner_read (scanner_on ''$16#DEAD_BEEF$''))
     = Inr (tokBLOB,
            Some (Blob 0 [CHR 0xDE, CHR 0xEA, CHR 0xAD, CHR 0xDB,
                          CHR 0xBE, CHR 0xEE, CHR 0xEF, CHR 0xEF]))"
  by code_simp

text \<open>
  Claim C1, as the code has it. One read skips all the white space before a token,
  blank lines included, and returns a single token for the indentation it measured:
  for two spaces, a newline, two spaces, \<^verbatim>\<open>foo\<close> and a newline, the reads of a scanner
  without a syntax table return \<^verbatim>\<open>INDENT\<close>, \<^verbatim>\<open>NAME\<close> with the name \<^verbatim>\<open>foo\<close>, \<^verbatim>\<open>UNINDENT\<close>
  and \<^verbatim>\<open>EOF\<close>.
\<close>

theorem scan_indented_foo:
  "scanner_run 6 (scanner_on (''  '' @ [CHR 0x0A] @ ''  foo'' @ [CHR 0x0A]))
     = [Inr (tokINDENT, None, [CHR 0x0A]),
        Inr (tokNAME, Some (Name 4 ''foo''), ''foo''),
        Inr (tokUNINDENT, None, [CHR 0x0A]),
        Inr (tokEOF, None, [])]"
  by code_simp

text \<open>
  The claim as stated has a \<^verbatim>\<open>NEWLINE\<close> before the \<^verbatim>\<open>INDENT\<close> and before the \<^verbatim>\<open>UNINDENT\<close>; the
  reads do not return these.
\<close>

theorem scan_indented_foo_not_six_tokens:
  "map (map_sum id fst) (scanner_run 6 (scanner_on (''  '' @ [CHR 0x0A] @ ''  foo'' @ [CHR 0x0A])))
     \<noteq> [Inr tokNEWLINE, Inr tokINDENT, Inr tokNAME, Inr tokNEWLINE, Inr tokUNINDENT, Inr tokEOF]"
  by code_simp

text \<open>
  Claim C4 fails on the code. A fresh scanner has an empty stack of indents and indent
  0. A line that starts in column 0 is not deeper than the indent, so the read goes on
  to compare the column with \<^verbatim>\<open>indents_top\<close>, which reads the element before the data of
  the empty stack; the two other uses of \<^verbatim>\<open>indents_top\<close> in \<^verbatim>\<open>scanner_read\<close> test the length
  first. This happens at the first newline of \<^verbatim>\<open>a\<close>, newline, \<^verbatim>\<open>b\<close>.
\<close>

theorem indents_top_of_empty_stack:
  "map (map_sum id fst) (scanner_run 2 (scanner_on (''a'' @ [CHR 0x0A] @ ''b'')))
     = [Inr tokNAME, Inl (OutOfBounds ''indents_top'')]
   \<and> indents (scanner_on (''a'' @ [CHR 0x0A] @ ''b'')) = []"
  by code_simp

text \<open>
  Claim C9 fails on the code at its third read. The first read of \<^verbatim>\<open>1..3\<close> returns the
  integer 1 and leaves the two points pending, the second returns the symbol of two
  points. In the third read the digit loop gets \<open>EOF\<close> after the digit 3 and indexes the
  table of digit values with it, one byte before the table; the loops for white space
  and for operators test for \<open>EOF\<close> first. With a character after the 3 the third read
  returns the integer 3.
\<close>

theorem scan_one_dot_dot_three:
  "scanner_run 3 (scanner_on ''1..3'')
     = [Inr (tokINTEGER, Some (Natural 0 1), ''1.''),
        Inr (tokSYMBOL, Some (Name 0 ''..''), ''..''),
        Inl (OutOfBounds ''digit_value'')]"
  by code_simp

lemma scan_one_dot_dot_three_space:
  "map (map_sum id (\<lambda>x. (fst x, fst (snd x)))) (scanner_run 3 (scanner_on ''1..3 ''))
     = [Inr (tokINTEGER, Some (Natural 0 1)),
        Inr (tokSYMBOL, Some (Name 0 ''..'')),
        Inr (tokINTEGER, Some (Natural 4 3))]"
  by code_simp

lemma pushback_order:
  "map_sum id (\<lambda>x. (fst x, pending_char0 (snd x), pending_char1 (snd x),
                      fst (scanner_getchar (snd x)),
                      fst (scanner_getchar (snd (scanner_getchar (snd x))))))
     (scanner_read (scanner_on ''1.x''))
   = Inr (tokINTEGER, CHR ''.'', CHR ''x'', 46, 120)"
  by code_simp

section \<open>Properties of the indentation tokens\<close>

lemma scanner_getchar_fields [simp]:
  "indents (snd (scanner_getchar s)) = indents s"
  "indent (snd (scanner_getchar s)) = indent s"
  by (simp_all add: scanner_getchar_def Let_def split: list.splits)

lemma space_step_fields [simp]:
  "indents (space_step pos c s) = indents s"
  "indent (space_step pos c s) = indent s"
  by (simp_all add: space_step_def scanner_consume_def scanner_error_def Let_def)

lemma skip_spaces_fields:
  "indents (snd (skip_spaces pos c s)) = indents s \<and> indent (snd (skip_spaces pos c s)) = indent s"
proof (induction pos c s rule: skip_spaces.induct)
  case (1 pos c s)
  show ?case
  proof (cases "isspace c \<and> c \<noteq> EOF")
    case True
    with 1 show ?thesis by (subst (1 2) skip_spaces.simps) simp
  next
    case False
    then show ?thesis by (subst (1 2) skip_spaces.simps) auto
  qed
qed

lemma scanner_spaces_fields [simp]:
  "indents (snd (scanner_spaces pos s)) = indents s"
  "indent (snd (scanner_spaces pos s)) = indent s"
  by (simp_all add: scanner_spaces_def skip_spaces_fields)

lemma indents_top_last: "xs \<noteq> [] \<Longrightarrow> indents_top xs = Inr (last xs)"
  by (simp add: indents_top_def indents_length_def last_conv_nth)

lemma indents_top_empty: "indents_top [] = Inl (OutOfBounds ''indents_top'')"
  by (simp add: indents_top_def indents_length_def)

lemma indents_pop_butlast: "xs \<noteq> [] \<Longrightarrow> indents_pop xs = Inr (butlast xs)"
  by (simp add: indents_pop_def indents_length_def blob_range_def butlast_conv_take)

text \<open>
  Claim C2, as the code has it. When a read decides the indentation after a newline with
  \<^verbatim>\<open>setting_indent\<close> false, the column is not beyond the current indent and is smaller than
  the top of the stack of indents, the read pops one level and sets the indent to the
  column; it then reports "Unindenting to the right of previous indentation" and
  returns \<^verbatim>\<open>ERROR\<close> if the stack is still not empty and its new top is smaller than the
  column, and returns \<^verbatim>\<open>UNINDENT\<close> otherwise. Here \<open>s\<close> is the scanner after the white space
  and \<open>c\<close> the character that ended it, which is pushed back; no second character is
  pending, as the assertion of \<^verbatim>\<open>scanner_ungetchar\<close> requires.
\<close>

theorem unindent_decision:
  assumes "reader s0"
    and "indents s0 = [] \<or> \<not> last (indents s0) > indent s0"
    and "scanner_spaces (scanner_position s0)
           (s0\<lparr>source_position := scanner_position s0, source := [], scanned := None,
               had_space_before := True\<rparr>) = (c, s)"
    and "checking_indent s" and "\<not> setting_indent s" and "pending_char1 s = CHR 0x00"
    and "\<not> column s > indent s" and "indents s \<noteq> []" and "column s < last (indents s)"
  shows "scanner_read s0 =
           (let s2 = s\<lparr>pending_char1 := pending_char0 s, pending_char0 := int_char c,
                        checking_indent := False,
                        indents := butlast (indents s), indent := column s\<rparr>
            in if butlast (indents s) \<noteq> [] \<and> last (butlast (indents s)) < column s
               then Inr (tokERROR,
                         s2\<lparr>sink := error (scanner_position s0)
                                      ''Unindenting to the right of previous indentation'' []
                                      (sink s2)\<rparr>)
               else Inr (tokUNINDENT, s2))"
proof -
  define s1 where "s1 = s0\<lparr>source_position := scanner_position s0, source := [], scanned := None,
                           had_space_before := True\<rparr>"
  have sp: "scanner_spaces (scanner_position s0) s1 = (c, s)"
    using assms(3) by (simp add: s1_def)
  from sp have s: "s = snd (scanner_spaces (scanner_position s0) s1)" by simp
  have ind: "indents s = indents s0" "indent s = indent s0"
    unfolding s by (simp_all add: s1_def)
  have read: "scanner_read s0 = scanner_indent (scanner_position s0) c s"
  proof (cases "indents s0 = []")
    case True
    with assms(1) assms(4) sp show ?thesis
      by (simp add: scanner_read_def Let_def s1_def indents_length_def)
  next
    case False
    with assms(2) have "\<not> last (indents s0) > indent s0" by simp
    with False assms(1) assms(4) sp show ?thesis
      by (simp add: scanner_read_def Let_def s1_def indents_length_def indents_top_last)
  qed
  have top: "indents_top (indents s) = Inr (last (indents s))"
    using assms(8) by (rule indents_top_last)
  have pop: "indents_pop (indents s) = Inr (butlast (indents s))"
    using assms(8) by (rule indents_pop_butlast)
  show ?thesis
  proof (cases "butlast (indents s) = []")
    case True
    with assms(5-9) top pop show ?thesis
      unfolding read scanner_indent_def
      by (simp add: scanner_ungetchar_def Let_def indents_length_def)
  next
    case False
    then have "indents_top (butlast (indents s)) = Inr (last (butlast (indents s)))"
      by (rule indents_top_last)
    moreover from False have "\<not> length (indents s) \<le> Suc 0"
      by (cases "indents s" rule: rev_cases) auto
    ultimately show ?thesis
      using False assms(5-9) top pop
      unfolding read scanner_indent_def
      by (simp add: scanner_ungetchar_def Let_def indents_length_def scanner_error_def)
  qed
qed


theorem unindent_decision_witness:
  "map_sum id (\<lambda>x. (fst x, indents (snd x), indent (snd x), pending_char0 (snd x)))
     (scanner_read
        \<lparr> position = 10, reader = True, stream = '' c '', scanner_syntax = None,
           source_position = 8, source = ''b'', scanned = Some (Name 8 ''b''),
           indents = [2, 4], block_close = None, indent = 4, column = 4,
           pending_char0 = CHR 0x0A, pending_char1 = CHR 0x00, indent_char = CHR '' '',
           checking_indent = False, setting_indent = False,
           had_space_before = False, had_space_after = True,
           sink = \<lparr>errors = None, displayed = []\<rparr> \<rparr>)
   = Inr (tokUNINDENT, [2], 1, CHR ''c'')"
proof -
  define s0 where "s0 =
        \<lparr> position = 10, reader = True, stream = '' c '', scanner_syntax = None,
           source_position = 8, source = ''b'', scanned = Some (Name 8 ''b''),
           indents = [2, 4], block_close = None, indent = 4, column = 4,
           pending_char0 = CHR 0x0A, pending_char1 = CHR 0x00, indent_char = CHR '' '',
           checking_indent = False, setting_indent = False,
           had_space_before = False, had_space_after = True,
           sink = \<lparr>errors = None, displayed = []\<rparr> \<rparr>"
  define w where "w = scanner_spaces (scanner_position s0)
                        (s0\<lparr>source_position := scanner_position s0, source := [],
                            scanned := None, had_space_before := True\<rparr>)"
  have h1: "reader s0" by (simp add: s0_def)
  have h2: "indents s0 = [] \<or> \<not> last (indents s0) > indent s0" by (simp add: s0_def)
  have h3: "scanner_spaces (scanner_position s0)
              (s0\<lparr>source_position := scanner_position s0, source := [],
                  scanned := None, had_space_before := True\<rparr>) = (fst w, snd w)"
    by (simp add: w_def)
  have h4: "checking_indent (snd w)" unfolding w_def s0_def by code_simp
  have h5: "\<not> setting_indent (snd w)" unfolding w_def s0_def by code_simp
  have h6: "pending_char1 (snd w) = CHR 0x00" unfolding w_def s0_def by code_simp
  have h7: "\<not> column (snd w) > indent (snd w)" unfolding w_def s0_def by code_simp
  have h8: "indents (snd w) \<noteq> []" unfolding w_def s0_def by code_simp
  have h9: "column (snd w) < last (indents (snd w))" unfolding w_def s0_def by code_simp
  have v: "indents (snd w) = [2, 4]" "column (snd w) = 1" "int_char (fst w) = CHR ''c''"
    unfolding w_def s0_def by code_simp+
  show ?thesis
    unfolding s0_def [symmetric]
    using unindent_decision [OF h1 h2 h3 h4 h5 h6 h7 h8 h9] v
    by (simp add: Let_def)
qed

text \<open>
  The claim as stated has the test the other way round. With the levels 2 and 4 open, a
  line in column 1 pops the level 4 and returns \<^verbatim>\<open>UNINDENT\<close> although the new top 2 exceeds
  the column (the next read pops the level 2); a line in column 3 pops the level 4,
  reports the error and returns \<^verbatim>\<open>ERROR\<close> although the new top 2 does not exceed the column.
\<close>

theorem unindent_decision_counterexample:
  "map_sum id (\<lambda>x. (fst x, indents (snd x), column (snd x), displayed (sink (snd x))))
     (read_after 4 (scanner_on ([CHR 0x0A] @ ''  a'' @ [CHR 0x0A] @ ''    b'' @ [CHR 0x0A] @ '' c '')))
   = Inr (tokUNINDENT, [2], 1, [])
   \<and> map_sum id (\<lambda>x. (fst x, indents (snd x), column (snd x), displayed (sink (snd x))))
     (read_after 4 (scanner_on ([CHR 0x0A] @ ''  a'' @ [CHR 0x0A] @ ''    b'' @ [CHR 0x0A] @ ''   c '')))
   = Inr (tokERROR, [2], 3,
          [Text_Node 9 ''Unindenting to the right of previous indentation'' []])"
  by code_simp

text \<open>The tokens of numbers, names, texts and operators: none of them is \<^verbatim>\<open>INDENT\<close>,
  \<^verbatim>\<open>UNINDENT\<close> or \<^verbatim>\<open>ERROR\<close>.\<close>

lemma number_return_token:
  "number_return pos c n rv s = Inr x \<Longrightarrow> fst x \<notin> {tokINDENT, tokUNINDENT, tokERROR}"
  by (auto simp: number_return_def Let_def split: sum.splits if_splits)

lemma scan_exponent_part_token:
  "scan_exponent_part pos c n rv s = Inr x \<Longrightarrow> fst x \<notin> {tokINDENT, tokUNINDENT, tokERROR}"
  unfolding scan_exponent_part_def Let_def
  by (auto split: sum.splits if_splits dest: number_return_token)

lemma scan_number_end_token:
  "scan_number_end pos c n rv s = Inr x \<Longrightarrow> fst x \<notin> {tokINDENT, tokUNINDENT, tokERROR}"
  unfolding scan_number_end_def Let_def
  by (auto split: if_splits dest: number_return_token scan_exponent_part_token)

lemma scan_dot_token:
  "scan_dot pos c n rv s = Inr x \<Longrightarrow> fst x \<notin> {tokINDENT, tokUNINDENT, tokERROR}"
  unfolding scan_dot_def Let_def
  by (auto split: sum.splits if_splits dest: scan_number_end_token)

lemma scan_blob_end_token:
  "scan_blob_end pos c n s = Inr x \<Longrightarrow> fst x \<notin> {tokINDENT, tokUNINDENT, tokERROR}"
  unfolding scan_blob_end_def Let_def
  by (auto split: sum.splits option.splits if_splits)

lemma scan_number_token:
  "scan_number pos c b s = Inr x \<Longrightarrow> fst x \<notin> {tokINDENT, tokUNINDENT, tokERROR}"
  unfolding scan_number_def Let_def
  by (auto split: sum.splits if_splits
           dest: scan_blob_end_token scan_dot_token scan_number_end_token)

lemma scan_name_token:
  "scan_name c s = Inr x \<Longrightarrow> fst x \<notin> {tokINDENT, tokUNINDENT, tokERROR}"
  unfolding scan_name_def Let_def
  by (auto split: sum.splits option.splits if_splits)

lemma text_return_token:
  "text_return pos dq c tx s = Inr x \<Longrightarrow> fst x \<notin> {tokINDENT, tokUNINDENT, tokERROR}"
  unfolding text_return_def Let_def
  by (auto split: sum.splits if_splits)

lemma scan_text_token:
  "scan_text pos dq c tx s = Inr x \<Longrightarrow> fst x \<notin> {tokINDENT, tokUNINDENT, tokERROR}"
proof (induction pos dq c tx s rule: scan_text.induct)
  case (1 pos dq c tx s)
  show ?case
  proof (cases "(if c = EOF then eos_of dq else c) = eos_of dq")
    case True
    show ?thesis
    proof (cases "fst (scanner_nextchar (eos_of dq) (text_eof pos c s)) \<noteq> eos_of dq")
      case ne: True
      with True "1.prems" show ?thesis
        by (subst (asm) scan_text.simps) (auto dest: text_return_token)
    next
      case False
      with True "1.prems" "1.IH"(1) show ?thesis
        by (subst (asm) scan_text.simps) auto
    qed
  next
    case False
    with "1.prems" "1.IH"(2) show ?thesis
      by (subst (asm) scan_text.simps) auto
  qed
qed

lemma scan_operator_token:
  "fst (scan_operator syn c s) \<notin> {tokINDENT, tokUNINDENT, tokERROR}"
proof (induction syn c s rule: scan_operator.induct)
  case (1 syn c s)
  show ?case
    by (subst scan_operator.simps) (use 1 in \<open>auto split: option.splits\<close>)
qed

lemma scan_operator_token_ne:
  "fst (scan_operator syn c s) \<noteq> tokINDENT"
  "fst (scan_operator syn c s) \<noteq> tokUNINDENT"
  "fst (scan_operator syn c s) \<noteq> tokERROR"
  using scan_operator_token [of syn c s] by auto

lemma scan_symbol_token:
  "scan_symbol c s = Inr x \<Longrightarrow> fst x \<notin> {tokINDENT, tokUNINDENT, tokERROR}"
  unfolding scan_symbol_def Let_def
  by (auto split: sum.splits option.splits simp: scan_operator_token_ne)

lemma scanner_token_token:
  "scanner_token c s = Inr x \<Longrightarrow> fst x \<notin> {tokINDENT, tokUNINDENT, tokERROR}"
  unfolding scanner_token_def Let_def
  by (auto split: if_splits
           dest: scan_number_token scan_name_token scan_text_token scan_symbol_token)

lemma scanner_indent_INDENT:
  assumes "scanner_indent pos c s = Inr (tokINDENT, s')"
  shows "indents s' = indents s @ [column s'] \<and> indent s' = column s' \<and> indent s < column s'"
  using assms
  unfolding scanner_indent_def Let_def
  by (auto simp: scanner_ungetchar_def indents_push_def blob_append_data_def scanner_error_def
           split: sum.splits if_splits)

text \<open>A read that returns \<^verbatim>\<open>INDENT\<close> has pushed the measured column on the stack of indents.\<close>

lemma indent_pushes_level:
  assumes "scanner_read s = Inr (tokINDENT, s')"
  shows "indents s' = indents s @ [column s'] \<and> indent s' = column s' \<and> indent s < column s'"
proof -
  define pos where "pos = scanner_position s"
  define s1 where "s1 = s\<lparr>source_position := pos, source := [], scanned := None,
                          had_space_before := True\<rparr>"
  define w where "w = scanner_spaces pos s1"
  have f: "indents (snd w) = indents s" "indent (snd w) = indent s"
    by (simp_all add: w_def s1_def)
  have "scanner_indent pos (fst w) (snd w) = Inr (tokINDENT, s')"
    using assms scanner_token_token [of "fst w" "snd w" "(tokINDENT, s')"]
    unfolding scanner_read_def Let_def pos_def [symmetric]
    by (auto simp: s1_def [symmetric] w_def [symmetric] split: if_splits sum.splits)
  from scanner_indent_INDENT [OF this] f show ?thesis by simp
qed

section \<open>The depth of the stack of indents\<close>

text \<open>
  Reading characters, reporting errors and scanning a token leave the stack of indents
  and \<^verbatim>\<open>setting_indent\<close> as they are: \<open>same_stack s s'\<close> says that \<open>s'\<close> has those of \<open>s\<close>.
\<close>

definition same_stack :: "scanner \<Rightarrow> scanner \<Rightarrow> bool" where
  "same_stack s s' = (indents s' = indents s \<and> setting_indent s' = setting_indent s)"

lemma same_stack_refl [simp]: "same_stack s s"
  by (simp add: same_stack_def)

lemma same_stack_trans: "same_stack a b \<Longrightarrow> same_stack b c \<Longrightarrow> same_stack a c"
  by (simp add: same_stack_def)

lemma same_stack_getchar: "same_stack s (snd (scanner_getchar s))"
  by (simp add: same_stack_def scanner_getchar_def Let_def split: list.splits)

lemma same_stack_consume: "same_stack s (scanner_consume c s)"
  by (simp add: same_stack_def scanner_consume_def Let_def)

lemma same_stack_nextchar: "same_stack s (snd (scanner_nextchar c s))"
  unfolding scanner_nextchar_def
  by (rule same_stack_trans [OF same_stack_consume same_stack_getchar])

lemma same_stack_error: "same_stack s (scanner_error pos m va s)"
  by (simp add: same_stack_def scanner_error_def)

lemma same_stack_ungetchar: "scanner_ungetchar c s = Inr s' \<Longrightarrow> same_stack s s'"
  by (auto simp: same_stack_def scanner_ungetchar_def split: if_splits)

lemma same_stack_space_step: "same_stack s (space_step pos c s)"
  by (simp add: same_stack_def space_step_def scanner_consume_def scanner_error_def Let_def)

lemma same_stack_skip_spaces: "same_stack s (snd (skip_spaces pos c s))"
proof (induction pos c s rule: skip_spaces.induct)
  case (1 pos c s)
  show ?case
  proof (cases "isspace c \<and> c \<noteq> EOF")
    case True
    have "same_stack s (snd (scanner_getchar (space_step pos c s)))"
      by (rule same_stack_trans [OF same_stack_space_step same_stack_getchar])
    with True "1.IH" have "same_stack s (snd (skip_spaces pos
        (fst (scanner_getchar (space_step pos c s))) (snd (scanner_getchar (space_step pos c s)))))"
      by (blast intro: same_stack_trans)
    with True show ?thesis by (subst skip_spaces.simps) simp
  next
    case False
    then show ?thesis by (subst skip_spaces.simps) auto
  qed
qed

lemma same_stack_scanner_spaces:
  "same_stack s (snd (scanner_spaces pos s))"
proof -
  have "same_stack s ((snd (scanner_getchar s))\<lparr>had_space_before := False\<rparr>)"
    using same_stack_getchar [of s] by (simp add: same_stack_def)
  then show ?thesis
    unfolding scanner_spaces_def
    by (rule same_stack_trans [OF _ same_stack_skip_spaces])
qed

lemma same_stack_skip_underscore: "same_stack (snd r) (snd (skip_underscore pos m r))"
proof -
  have "same_stack (snd r) (scanner_error pos m [] (snd (scanner_nextchar d (snd r))))" for d
    by (rule same_stack_trans [OF same_stack_nextchar same_stack_error])
  then show ?thesis
    by (simp add: skip_underscore_def Let_def same_stack_nextchar)
qed

lemma same_stack_skip_blob_spaces: "same_stack (snd r) (snd (skip_blob_spaces r))"
proof (induction r rule: skip_blob_spaces.induct)
  case (1 r)
  show ?case
  proof (cases "fst r \<noteq> EOF \<and> isspace (fst r)")
    case True
    with "1.IH" same_stack_nextchar [of "snd r" 0]
    have "same_stack (snd r) (snd (skip_blob_spaces (scanner_nextchar 0 (snd r))))"
      by (blast intro: same_stack_trans)
    with True show ?thesis by (subst skip_blob_spaces.simps) simp
  next
    case False
    then show ?thesis by (subst skip_blob_spaces.simps) auto
  qed
qed

lemma same_stack_after_digit: "same_stack s (snd (after_digit pos b c s))"
proof -
  define r where "r = skip_underscore pos ''Two '_' characters in a row look ugly'' (scanner_nextchar c s)"
  have r: "same_stack s (snd r)"
    unfolding r_def
    using same_stack_nextchar [of s c] same_stack_skip_underscore
    by (blast intro: same_stack_trans)
  then have "same_stack s (snd (skip_blob_spaces r))"
    using same_stack_skip_blob_spaces by (blast intro: same_stack_trans)
  with r show ?thesis by (simp add: after_digit_def Let_def r_def)
qed

lemma same_stack_scan_digits:
  "scan_digits pos c n s = Inr r \<Longrightarrow> same_stack s (snd (snd r))"
proof (induction pos c n s rule: scan_digits.induct)
  case (1 pos c n s)
  from "1.prems" obtain d where d: "digit_value (digit_base64 n) c = Inr d"
    by (subst (asm) scan_digits.simps) (auto split: sum.splits)
  show ?case
  proof (cases "d < base n \<or> (blob n \<noteq> None \<and> d < blob_base n)")
    case True
    with "1.prems" d
    have "scan_digits pos (fst (after_digit pos (blob n \<noteq> None) c s)) (digit_step d n)
            (snd (after_digit pos (blob n \<noteq> None) c s)) = Inr r"
      by (subst (asm) scan_digits.simps) simp
    from "1.IH" [OF d True this] same_stack_after_digit [of s pos "blob n \<noteq> None" c]
    show ?thesis by (blast intro: same_stack_trans)
  next
    case False
    with "1.prems" d have "r = (c, n, s)"
      by (subst (asm) scan_digits.simps) auto
    then show ?thesis by simp
  qed
qed

lemma same_stack_set_base: "same_stack s (snd (set_base pos n s))"
  by (simp add: set_base_def Let_def same_stack_def scanner_error_def)

lemma same_stack_scan_based:
  "scan_based pos c n s = Inr r \<Longrightarrow> same_stack s (snd (snd r))"
proof (induction pos c n s rule: scan_based.induct)
  case (1 pos c n s)
  from "1.prems" obtain x where x: "scan_digits pos c n s = Inr x"
    by (subst (asm) scan_based.simps) (auto split: sum.splits)
  then have sx: "same_stack s (snd (snd x))" by (rule same_stack_scan_digits)
  show ?case
  proof (cases "fst x = 35 \<and> \<not> based_number (fst (snd x))")
    case True
    define sb where "sb = set_base pos (fst (snd x)) (snd (snd x))"
    define nc where "nc = scanner_nextchar (fst x) (snd sb)"
    from "1.prems" x True
    have rec: "scan_based pos (fst nc) ((fst sb)\<lparr>natural_value := 0, based_number := True\<rparr>) (snd nc) = Inr r"
      by (subst (asm) scan_based.simps) (simp add: sb_def nc_def)
    have "same_stack (snd nc) (snd (snd r))"
      using "1.IH" [OF x True] rec by (simp add: sb_def nc_def)
    moreover have "same_stack (snd (snd x)) (snd nc)"
      unfolding nc_def sb_def
      by (rule same_stack_trans [OF same_stack_set_base same_stack_nextchar])
    ultimately show ?thesis using sx by (blast intro: same_stack_trans)
  next
    case False
    with "1.prems" x have "snd (snd r) = snd (snd x)"
      by (subst (asm) scan_based.simps) auto
    with sx show ?thesis by simp
  qed
qed

lemma same_stack_scan_blob_end:
  assumes "scan_blob_end pos c n s = Inr x"
  shows "same_stack s (snd x)"
proof -
  define r where "r = (if blob_base n = 64 \<and> c = 61 then scanner_nextchar c s else (c, s))"
  have r: "same_stack s (snd r)"
    unfolding r_def by (simp add: same_stack_nextchar)
  from assms obtain s1 where
    s1: "(if fst r = 36 then Inr (scanner_consume (fst r) (snd r))
          else scanner_ungetchar (fst r) (snd r)) = Inr s1"
    unfolding scan_blob_end_def Let_def r_def [symmetric] by (auto split: sum.splits)
  then have "same_stack (snd r) s1"
    using same_stack_consume [of "snd r" "fst r"]
    by (auto split: if_splits dest: same_stack_ungetchar)
  with r have "same_stack s s1" by (blast intro: same_stack_trans)
  moreover from assms s1 have "\<exists>v. snd x = s1\<lparr>scanned := v\<rparr>"
    unfolding scan_blob_end_def Let_def r_def [symmetric]
    by (auto split: option.splits)
  ultimately show ?thesis by (auto simp: same_stack_def)
qed

lemma same_stack_scan_fraction:
  "scan_fraction pos c n cp rv s = Inr r \<Longrightarrow> same_stack s (snd (snd r))"
proof (induction pos c n cp rv s rule: scan_fraction.induct)
  case (1 pos c n cp rv s)
  from "1.prems" obtain d where d: "digit_value (digit_base64 n) c = Inr d"
    by (subst (asm) scan_fraction.simps) (auto split: sum.splits)
  define nx where "nx = skip_underscore pos ''Two _ characters look really ugly'' (scanner_nextchar c s)"
  have nx: "same_stack s (snd nx)"
    unfolding nx_def
    using same_stack_nextchar [of s c] same_stack_skip_underscore
    by (blast intro: same_stack_trans)
  show ?case
  proof (cases "d < base n")
    case True
    with "1.prems" d
    have "scan_fraction pos (fst nx) n (cp / real_of_int (uint (base n)))
            (rv + cp / real_of_int (uint (base n)) * real (unat d)) (snd nx) = Inr r"
      by (subst (asm) scan_fraction.simps) (simp add: nx_def)
    with "1.IH" [OF d True] have "same_stack (snd nx) (snd (snd r))" by (simp add: nx_def)
    with nx show ?thesis by (blast intro: same_stack_trans)
  next
    case False
    with "1.prems" d have "r = (c, rv, s)"
      by (subst (asm) scan_fraction.simps) auto
    then show ?thesis by simp
  qed
qed

lemma same_stack_skip_exponent_underscore:
  "same_stack (snd r) (snd (skip_exponent_underscore r))"
  by (simp add: skip_exponent_underscore_def same_stack_nextchar)

lemma same_stack_scan_exponent:
  "scan_exponent c e s = Inr r \<Longrightarrow> same_stack s (snd (snd r))"
proof (induction c e s rule: scan_exponent.induct)
  case (1 c e s)
  from "1.prems" obtain d where d: "digit_value False c = Inr d"
    by (subst (asm) scan_exponent.simps) (auto split: sum.splits)
  define nx where "nx = skip_exponent_underscore (scanner_nextchar c s)"
  have nx: "same_stack s (snd nx)"
    unfolding nx_def
    using same_stack_nextchar [of s c] same_stack_skip_exponent_underscore
    by (blast intro: same_stack_trans)
  show ?case
  proof (cases "d < 10")
    case True
    with "1.prems" d have "scan_exponent (fst nx) (10 * e + d) (snd nx) = Inr r"
      by (subst (asm) scan_exponent.simps) (simp add: nx_def)
    with "1.IH" [OF d True] have "same_stack (snd nx) (snd (snd r))" by (simp add: nx_def)
    with nx show ?thesis by (blast intro: same_stack_trans)
  next
    case False
    with "1.prems" d have "r = (c, e, s)"
      by (subst (asm) scan_exponent.simps) auto
    then show ?thesis by simp
  qed
qed

lemma same_stack_number_return:
  "number_return pos c n rv s = Inr x \<Longrightarrow> same_stack s (snd x)"
  unfolding number_return_def Let_def
  by (auto simp: same_stack_def scanner_ungetchar_def split: sum.splits if_splits)

lemma same_stack_scan_exponent_part:
  assumes "scan_exponent_part pos c n rv s = Inr x"
  shows "same_stack s (snd x)"
proof -
  define r where "r = scanner_nextchar c s"
  define r1 where "r1 = (if fst r = 43 \<or> fst r = 45 then scanner_nextchar (fst r) (snd r) else r)"
  have r: "same_stack s (snd r)" unfolding r_def by (rule same_stack_nextchar)
  have "same_stack (snd r) (snd r1)"
    unfolding r1_def by (simp add: same_stack_nextchar)
  with r have r1: "same_stack s (snd r1)" by (blast intro: same_stack_trans)
  from assms obtain y where y: "scan_exponent (fst r1) 0 (snd r1) = Inr y"
    unfolding scan_exponent_part_def Let_def r_def [symmetric] r1_def [symmetric]
    by (auto split: sum.splits)
  then have "same_stack (snd r1) (snd (snd y))" by (rule same_stack_scan_exponent)
  with r1 have sy: "same_stack s (snd (snd y))" by (blast intro: same_stack_trans)
  from assms y have "\<exists>n' rv'. number_return pos (fst y) n' rv' (snd (snd y)) = Inr x"
    unfolding scan_exponent_part_def Let_def r_def [symmetric] r1_def [symmetric]
    by (auto split: if_splits)
  then have "same_stack (snd (snd y)) (snd x)" by (auto dest: same_stack_number_return)
  with sy show ?thesis by (blast intro: same_stack_trans)
qed

lemma same_stack_scan_number_end:
  assumes "scan_number_end pos c n rv s = Inr x"
  shows "same_stack s (snd x)"
proof -
  define r where "r = (if c = 35 then scanner_nextchar c s else (c, s))"
  have r: "same_stack s (snd r)"
    unfolding r_def by (simp add: same_stack_nextchar)
  from assms have "scan_exponent_part pos (fst r) n rv (snd r) = Inr x
                   \<or> number_return pos (fst r) n rv (snd r) = Inr x"
    unfolding scan_number_end_def Let_def r_def [symmetric] by (auto split: if_splits)
  then have "same_stack (snd r) (snd x)"
    by (auto dest: same_stack_scan_exponent_part same_stack_number_return)
  with r show ?thesis by (blast intro: same_stack_trans)
qed

lemma same_stack_scan_dot:
  assumes "scan_dot pos c n rv s = Inr x"
  shows "same_stack s (snd x)"
proof -
  define r where "r = scanner_nextchar c s"
  have r: "same_stack s (snd r)" unfolding r_def by (rule same_stack_nextchar)
  from assms obtain d where d: "digit_value (digit_base64 n) (fst r) = Inr d"
    unfolding scan_dot_def Let_def r_def [symmetric] by (auto split: sum.splits)
  show ?thesis
  proof (cases "d \<ge> base n")
    case True
    with assms d have "same_stack (snd r) (snd x)"
      unfolding scan_dot_def Let_def r_def [symmetric]
      by (auto simp: same_stack_def scanner_ungetchar_def split: sum.splits if_splits)
    with r show ?thesis by (blast intro: same_stack_trans)
  next
    case False
    with assms d obtain y where y: "scan_fraction pos (fst r) n 1 rv (snd r) = Inr y"
      and e: "scan_number_end pos (fst y) (n\<lparr>floating_point := True\<rparr>) (fst (snd y)) (snd (snd y)) = Inr x"
      unfolding scan_dot_def Let_def r_def [symmetric]
      by (auto split: sum.splits)
    from same_stack_scan_fraction [OF y] same_stack_scan_number_end [OF e] r
    show ?thesis by (blast intro: same_stack_trans)
  qed
qed

lemma same_stack_scan_number:
  assumes "scan_number pos c b s = Inr x"
  shows "same_stack s (snd x)"
proof -
  from assms obtain y where y: "scan_based pos c (number_init b) s = Inr y"
    unfolding scan_number_def by (auto split: sum.splits)
  then have sy: "same_stack s (snd (snd y))" by (rule same_stack_scan_based)
  from assms y have "(\<exists>rv. scan_blob_end pos (fst y) (fst (snd y)) (snd (snd y)) = Inr x
                       \<or> scan_dot pos (fst y) (fst (snd y)) rv (snd (snd y)) = Inr x
                       \<or> scan_number_end pos (fst y) (fst (snd y)) rv (snd (snd y)) = Inr x)"
    unfolding scan_number_def Let_def by (auto split: if_splits)
  then have "same_stack (snd (snd y)) (snd x)"
    by (auto dest: same_stack_scan_blob_end same_stack_scan_dot same_stack_scan_number_end)
  with sy show ?thesis by (blast intro: same_stack_trans)
qed

lemma same_stack_scan_name_chars: "same_stack (snd r) (snd (scan_name_chars r))"
proof (induction r rule: scan_name_chars.induct)
  case (1 r)
  show ?case
  proof (cases "isalnum (fst r) \<or> fst r = 95 \<or> utf8_is_first (fst r) \<or> utf8_is_next (fst r)")
    case True
    with "1.IH" same_stack_nextchar [of "snd r" "fst r"]
    have "same_stack (snd r) (snd (scan_name_chars (scanner_nextchar (fst r) (snd r))))"
      by (blast intro: same_stack_trans)
    with True show ?thesis by (subst scan_name_chars.simps) simp
  next
    case False
    then show ?thesis by (subst scan_name_chars.simps) auto
  qed
qed

lemma same_stack_scan_name:
  assumes "scan_name c s = Inr x"
  shows "same_stack s (snd x)"
proof -
  define r where "r = scan_name_chars (c, s)"
  have r: "same_stack s (snd r)"
    unfolding r_def using same_stack_scan_name_chars [of "(c, s)"] by simp
  from assms have "same_stack (snd r) (snd x)"
    unfolding scan_name_def Let_def r_def [symmetric]
    by (auto simp: same_stack_def scanner_ungetchar_def split: sum.splits option.splits if_splits)
  with r show ?thesis by (blast intro: same_stack_trans)
qed

lemma same_stack_text_eof: "same_stack s (text_eof pos c s)"
  by (simp add: text_eof_def same_stack_def scanner_error_def)

lemma same_stack_text_return:
  "text_return pos dq c tx s = Inr x \<Longrightarrow> same_stack s (snd x)"
  unfolding text_return_def Let_def
  by (auto simp: same_stack_def scanner_ungetchar_def scanner_character_def scanner_error_def
           split: sum.splits if_splits)

lemma same_stack_scan_text:
  "scan_text pos dq c tx s = Inr x \<Longrightarrow> same_stack s (snd x)"
proof (induction pos dq c tx s rule: scan_text.induct)
  case (1 pos dq c tx s)
  define a where "a = scanner_nextchar (eos_of dq) (text_eof pos c s)"
  define b where "b = scanner_nextchar (eos_of dq) (snd a)"
  have a: "same_stack s (snd a)"
    unfolding a_def by (rule same_stack_trans [OF same_stack_text_eof same_stack_nextchar])
  have b: "same_stack s (snd b)"
    unfolding b_def using a same_stack_nextchar by (blast intro: same_stack_trans)
  show ?case
  proof (cases "(if c = EOF then eos_of dq else c) = eos_of dq")
    case True
    show ?thesis
    proof (cases "fst a \<noteq> eos_of dq")
      case ne: True
      with True "1.prems" have "text_return pos dq (fst a) tx (snd a) = Inr x"
        by (subst (asm) scan_text.simps) (simp add: a_def)
      then have "same_stack (snd a) (snd x)" by (rule same_stack_text_return)
      with a show ?thesis by (blast intro: same_stack_trans)
    next
      case False
      with True "1.prems"
      have "scan_text pos dq (fst b) (blob_append_data tx [int_char (eos_of dq)]) (snd b) = Inr x"
        by (subst (asm) scan_text.simps) (simp add: a_def b_def)
      with "1.IH"(1) True False have "same_stack (snd b) (snd x)"
        by (simp add: a_def b_def)
      with b show ?thesis by (blast intro: same_stack_trans)
    qed
  next
    case False
    with "1.prems"
    have "scan_text pos dq (fst (scanner_nextchar c s)) (blob_append_data tx [int_char c])
            (snd (scanner_nextchar c s)) = Inr x"
      by (subst (asm) scan_text.simps) simp
    with "1.IH"(2) False have "same_stack (snd (scanner_nextchar c s)) (snd x)" by simp
    with same_stack_nextchar [of s c] show ?thesis by (blast intro: same_stack_trans)
  qed
qed

lemma same_stack_scan_operator: "same_stack s (snd (snd (scan_operator syn c s)))"
proof (induction syn c s rule: scan_operator.induct)
  case (1 syn c s)
  have r: "same_stack s (snd (scanner_nextchar c s))" by (rule same_stack_nextchar)
  show ?case
  proof (cases "ispunct c \<and> c \<noteq> 39 \<and> c \<noteq> 34 \<and> c \<noteq> EOF \<and> syntax_is_operator syn (source s)")
    case True
    show ?thesis
    proof (cases "syntax_is_block syn (source (snd (scanner_nextchar c s)))")
      case (Some closing)
      with True r show ?thesis
        by (subst scan_operator.simps) (simp add: same_stack_def)
    next
      case None
      show ?thesis
      proof (cases "case block_close (snd (scanner_nextchar c s)) of None \<Rightarrow> False
                     | Some bc \<Rightarrow> name_compare_eq (source (snd (scanner_nextchar c s))) bc")
        case c: True
        with True None r show ?thesis
          by (subst scan_operator.simps) (simp add: same_stack_def)
      next
        case False
        with "1.IH" True None
        have "same_stack (snd (scanner_nextchar c s))
                (snd (snd (scan_operator syn (fst (scanner_nextchar c s)) (snd (scanner_nextchar c s)))))"
          by simp
        with r have "same_stack s
                (snd (snd (scan_operator syn (fst (scanner_nextchar c s)) (snd (scanner_nextchar c s)))))"
          by (blast intro: same_stack_trans)
        with True None False show ?thesis
          by (subst scan_operator.simps) simp
      qed
    qed
  next
    case False
    then show ?thesis by (subst scan_operator.simps) auto
  qed
qed

lemma same_stack_scan_punct: "same_stack (snd r) (snd (scan_punct r))"
proof (induction r rule: scan_punct.induct)
  case (1 r)
  show ?case
  proof (cases "ispunct (fst r) \<and> fst r \<noteq> 39 \<and> fst r \<noteq> 34 \<and> fst r \<noteq> EOF")
    case True
    with "1.IH" same_stack_nextchar [of "snd r" "fst r"]
    have "same_stack (snd r) (snd (scan_punct (scanner_nextchar (fst r) (snd r))))"
      by (blast intro: same_stack_trans)
    with True show ?thesis by (subst scan_punct.simps) simp
  next
    case False
    then show ?thesis by (subst scan_punct.simps) auto
  qed
qed

lemma same_stack_scan_symbol:
  assumes "scan_symbol c s = Inr x"
  shows "same_stack s (snd x)"
proof -
  define y where "y = (case scanner_syntax s of
                 Some syn \<Rightarrow> scan_operator syn c s
               | None \<Rightarrow> (tokSYMBOL, scan_punct (c, s)))"
  have y: "same_stack s (snd (snd y))"
    unfolding y_def
    using same_stack_scan_operator [of s _ c] same_stack_scan_punct [of "(c, s)"]
    by (auto split: option.splits)
  from assms have "same_stack (snd (snd y)) (snd x)"
    unfolding scan_symbol_def Let_def y_def [symmetric]
    by (auto simp: same_stack_def scanner_ungetchar_def split: sum.splits if_splits)
  with y show ?thesis by (blast intro: same_stack_trans)
qed

lemma same_stack_scanner_token:
  assumes "scanner_token c s = Inr x"
  shows "same_stack s (snd x)"
proof -
  define s1 where "s1 = s\<lparr>source := blob_range (source s) 0 0\<rparr>"
  define r where "r = (if c = 36 then scanner_nextchar c s1 else (c, s1))"
  have "same_stack s s1" by (simp add: s1_def same_stack_def)
  moreover have "same_stack s1 (snd r)"
    unfolding r_def by (simp add: same_stack_nextchar)
  ultimately have r: "same_stack s (snd r)" by (blast intro: same_stack_trans)
  define r2 where "r2 = scanner_nextchar (fst r) (snd r)"
  have r2: "same_stack (snd r) (snd r2)" unfolding r2_def by (rule same_stack_nextchar)
  from assms have "(\<exists>pos b. scan_number pos (fst r) b (snd r) = Inr x)
                   \<or> scan_name (fst r) (snd r) = Inr x
                   \<or> (\<exists>pos dq. scan_text pos dq (fst r2) [] (snd r2) = Inr x)
                   \<or> scan_symbol (fst r) (snd r) = Inr x"
    unfolding scanner_token_def Let_def s1_def [symmetric] r_def [symmetric] r2_def [symmetric]
    by (auto split: if_splits)
  then have "same_stack (snd r) (snd x)"
    using r2
    by (auto dest: same_stack_scan_number same_stack_scan_name same_stack_scan_symbol
             dest!: same_stack_scan_text intro: same_stack_trans)
  with r show ?thesis by (blast intro: same_stack_trans)
qed

text \<open>The tokens of \<open>k\<close> successive reads, and the scanner after them.\<close>

fun scanner_reads :: "nat \<Rightarrow> scanner \<Rightarrow> fault + token list \<times> scanner" where
  "scanner_reads 0 s = Inr ([], s)"
| "scanner_reads (Suc k) s =
     (case scanner_read s of
        Inl e \<Rightarrow> Inl e
      | Inr x \<Rightarrow>
          (case scanner_reads k (snd x) of
             Inl e \<Rightarrow> Inl e
           | Inr y \<Rightarrow> Inr (fst x # fst y, snd y)))"

text \<open>The stack of indents a token leaves, with \<^verbatim>\<open>setting_indent\<close> false: a push of the
  column for \<^verbatim>\<open>INDENT\<close>, a pop for \<^verbatim>\<open>UNINDENT\<close> and \<^verbatim>\<open>ERROR\<close>, and no change otherwise.\<close>

definition stack_after :: "token \<Rightarrow> 32 word \<Rightarrow> 32 word list \<Rightarrow> 32 word list" where
  "stack_after t col xs =
     (if t = tokINDENT then xs @ [col]
      else if t = tokUNINDENT \<or> t = tokERROR then butlast xs
      else xs)"

lemma scanner_indent_stack:
  assumes "\<not> setting_indent s" and "scanner_indent pos c s = Inr (t, s1)"
  shows "\<not> setting_indent s1 \<and> indents s1 = stack_after t (column s1) (indents s)
         \<and> length (indents s1) + (if t = tokUNINDENT \<or> t = tokERROR then 1 else 0)
             = length (indents s) + (if t = tokINDENT then 1 else 0)"
proof -
  from assms(2) obtain s2 where u: "scanner_ungetchar c s = Inr s2"
    unfolding scanner_indent_def by (auto split: sum.splits)
  then have s2: "indents s2 = indents s" "setting_indent s2 = setting_indent s"
                "column s2 = column s" "indent s2 = indent s"
    by (auto simp: scanner_ungetchar_def split: if_splits)
  show ?thesis
  proof (cases "indents s = []")
    case True
    with assms u s2 show ?thesis
      unfolding scanner_indent_def Let_def
      by (auto simp: indents_push_def blob_append_data_def indents_top_def indents_length_def
                     stack_after_def
               split: if_splits)
  next
    case False
    then have top: "indents_top (indents s) = Inr (last (indents s))"
      and pop: "indents_pop (indents s) = Inr (butlast (indents s))"
      by (simp_all add: indents_top_last indents_pop_butlast)
    from False have len: "length (butlast (indents s)) + 1 = length (indents s)"
      by (cases "indents s" rule: rev_cases) auto
    from assms u s2 top pop len show ?thesis
      unfolding scanner_indent_def Let_def
      by (auto simp: indents_push_def blob_append_data_def stack_after_def scanner_error_def
               split: if_splits)
  qed
qed

lemma scanner_read_stack:
  assumes ns: "\<not> setting_indent s" and rd: "scanner_read s = Inr (t, s1)"
  shows "\<not> setting_indent s1 \<and> indents s1 = stack_after t (column s1) (indents s)
         \<and> length (indents s1) + (if t = tokUNINDENT \<or> t = tokERROR then 1 else 0)
             = length (indents s) + (if t = tokINDENT then 1 else 0)"
proof -
  define pos where "pos = scanner_position s"
  define sa where "sa = s\<lparr>source_position := pos, source := [], scanned := None\<rparr>"
  define sb where "sb = sa\<lparr>had_space_before := True\<rparr>"
  define w where "w = scanner_spaces pos sb"
  have sb: "indents sb = indents s" "setting_indent sb = setting_indent s"
    by (simp_all add: sb_def sa_def)
  have w: "indents (snd w) = indents s" "setting_indent (snd w) = setting_indent s"
    using same_stack_scanner_spaces [of sb pos] sb by (simp_all add: w_def same_stack_def)
  from rd have cases:
    "(t = tokEOF \<and> s1 = sa)
     \<or> (t = tokUNINDENT \<and> indents s \<noteq> [] \<and> s1 = sb\<lparr>indents := butlast (indents s)\<rparr>)
     \<or> scanner_indent pos (fst w) (snd w) = Inr (t, s1)
     \<or> (t = tokEOF \<and> s1 = snd w)
     \<or> scanner_token (fst w) (snd w) = Inr (t, s1)"
    unfolding scanner_read_def Let_def pos_def [symmetric]
    by (auto simp: sa_def [symmetric] sb_def [symmetric] w_def [symmetric] sb
                   indents_pop_def indents_length_def blob_range_def butlast_conv_take
             split: if_splits sum.splits)
  then consider
      (eof) "t = tokEOF" "s1 = sa"
    | (drain) "t = tokUNINDENT" "indents s \<noteq> []" "s1 = sb\<lparr>indents := butlast (indents s)\<rparr>"
    | (ind) "scanner_indent pos (fst w) (snd w) = Inr (t, s1)"
    | (eof2) "t = tokEOF" "s1 = snd w"
    | (tok) "scanner_token (fst w) (snd w) = Inr (t, s1)"
    by blast
  then show ?thesis
  proof cases
    case eof
    with ns show ?thesis by (simp add: sa_def stack_after_def)
  next
    case drain
    from drain(2) have "length (butlast (indents s)) + 1 = length (indents s)"
      by (cases "indents s" rule: rev_cases) auto
    with drain ns sb show ?thesis by (simp add: stack_after_def)
  next
    case ind
    from ns w have "\<not> setting_indent (snd w)" by simp
    from scanner_indent_stack [OF this ind, unfolded w] show ?thesis .
  next
    case eof2
    with ns w show ?thesis by (simp add: stack_after_def)
  next
    case tok
    from same_stack_scanner_token [OF tok] w
    have "indents s1 = indents s" "setting_indent s1 = setting_indent s"
      by (simp_all add: same_stack_def)
    moreover from scanner_token_token [OF tok]
    have "t \<noteq> tokINDENT" "t \<noteq> tokUNINDENT" "t \<noteq> tokERROR" by auto
    ultimately show ?thesis using ns by (simp add: stack_after_def)
  qed
qed

lemma scanner_reads_balance:
  "\<not> setting_indent s \<Longrightarrow> scanner_reads k s = Inr (ts, s') \<Longrightarrow>
     \<not> setting_indent s'
     \<and> length (indents s') + count_list ts tokUNINDENT + count_list ts tokERROR
         = length (indents s) + count_list ts tokINDENT"
proof (induction k arbitrary: s ts)
  case 0
  then show ?case by simp
next
  case (Suc k)
  from Suc.prems(2) obtain t s1 us where
    rd: "scanner_read s = Inr (t, s1)" and rest: "scanner_reads k s1 = Inr (us, s')"
    and ts: "ts = t # us"
    by (auto split: sum.splits)
  note st = scanner_read_stack [OF Suc.prems(1) rd]
  note one = st [THEN conjunct1] st [THEN conjunct2, THEN conjunct2]
  note sub = Suc.IH [OF one(1) rest]
  note ih = sub [THEN conjunct1] sub [THEN conjunct2]
  from one(2) ih ts show ?case by (auto split: if_splits)
qed

text \<open>
  Claim C3, as the code has it. A read returns \<^verbatim>\<open>INDENT\<close> only when it pushes a level on the
  stack of indents: the stack after the read is the stack before it with the measured
  column added, and the column, deeper than the indent before the read, is the new
  indent. With \<^verbatim>\<open>setting_indent\<close> false, every read leaves it false and changes the stack
  by that push when it returns \<^verbatim>\<open>INDENT\<close>, by a pop of the last level when it returns
  \<^verbatim>\<open>UNINDENT\<close> or \<^verbatim>\<open>ERROR\<close>, and not at all otherwise. So after any number of reads the
  number of \<^verbatim>\<open>INDENT\<close> tokens returned, plus the depth of the stack at the start, is the
  number of \<^verbatim>\<open>UNINDENT\<close> and \<^verbatim>\<open>ERROR\<close> tokens returned plus the depth of the stack reached:
  on a fresh scanner with no \<^verbatim>\<open>ERROR\<close>, each \<^verbatim>\<open>UNINDENT\<close> closes the last level opened by an
  \<^verbatim>\<open>INDENT\<close> and not yet closed, and each \<^verbatim>\<open>INDENT\<close> has been closed by exactly one
  \<^verbatim>\<open>UNINDENT\<close> whenever the stack is empty again.
\<close>

theorem indent_unindent_matching:
  "(scanner_read s = Inr (tokINDENT, s1) \<longrightarrow>
      indents s1 = indents s @ [column s1] \<and> indent s1 = column s1 \<and> indent s < column s1)
   \<and> (\<not> setting_indent s \<and> scanner_read s = Inr (t, s2) \<longrightarrow>
      \<not> setting_indent s2 \<and> indents s2 = stack_after t (column s2) (indents s)
      \<and> length (indents s2) + (if t = tokUNINDENT \<or> t = tokERROR then 1 else 0)
          = length (indents s) + (if t = tokINDENT then 1 else 0))
   \<and> (\<not> setting_indent s \<and> scanner_reads k s = Inr (ts, s') \<longrightarrow>
      \<not> setting_indent s'
      \<and> length (indents s') + count_list ts tokUNINDENT + count_list ts tokERROR
          = length (indents s) + count_list ts tokINDENT)"
  using indent_pushes_level [of s s1] scanner_read_stack [of s t s2]
        scanner_reads_balance [of s k ts s']
  by blast

theorem indent_unindent_matching_witness:
  "map_sum id (\<lambda>x. (fst x, indents (snd x), indent (snd x)))
     (scanner_read (scanner_on ([CHR 0x0A] @ ''  a''))) = Inr (tokINDENT, [2], 2)
   \<and> map_sum id (\<lambda>x. (fst x, length (indents (snd x)), setting_indent (snd x)))
       (scanner_reads 6 (scanner_on ([CHR 0x0A] @ ''  a'' @ [CHR 0x0A] @ ''    b'' @ [CHR 0x0A] @ ''c '')))
     = Inr ([tokINDENT, tokNAME, tokINDENT, tokNAME, tokUNINDENT, tokUNINDENT], 0, False)"
proof -
  define i1 where "i1 = scanner_on ([CHR 0x0A] @ ''  a'')"
  define i2 where "i2 = scanner_on ([CHR 0x0A] @ ''  a'' @ [CHR 0x0A] @ ''    b'' @ [CHR 0x0A] @ ''c '')"
  have t1: "map_sum id fst (scanner_read i1) = Inr tokINDENT" unfolding i1_def by code_simp
  then obtain s1 where r1: "scanner_read i1 = Inr (tokINDENT, s1)"
    by (cases "scanner_read i1") auto
  have c1: "map_sum id (\<lambda>x. column (snd x)) (scanner_read i1) = Inr 2" unfolding i1_def by code_simp
  have n1: "\<not> setting_indent i1" "indents i1 = []" unfolding i1_def by code_simp+
  have t2: "map_sum id fst (scanner_reads 6 i2)
              = Inr [tokINDENT, tokNAME, tokINDENT, tokNAME, tokUNINDENT, tokUNINDENT]"
    unfolding i2_def by code_simp
  then obtain s' where r2: "scanner_reads 6 i2
              = Inr ([tokINDENT, tokNAME, tokINDENT, tokNAME, tokUNINDENT, tokUNINDENT], s')"
    by (cases "scanner_reads 6 i2") auto
  have n2: "\<not> setting_indent i2" "indents i2 = []" unfolding i2_def by code_simp+
  from indent_unindent_matching [of i1 s1 tokINDENT s1 0 "[]" i1] r1 n1 c1
  have a: "indents s1 = [2]" "indent s1 = 2" by simp_all
  from indent_unindent_matching [of i2 _ _ _ 6
         "[tokINDENT, tokNAME, tokINDENT, tokNAME, tokUNINDENT, tokUNINDENT]" s'] r2 n2
  have b: "length (indents s') = 0" "\<not> setting_indent s'" by simp_all
  from a r1 b r2 show ?thesis
    unfolding i1_def [symmetric] i2_def [symmetric] by simp
qed

text \<open>
  The claim as stated fails for the input of a newline, two spaces and \<^verbatim>\<open>a\<close>: the reads
  give \<^verbatim>\<open>INDENT\<close>, \<^verbatim>\<open>NAME\<close> and \<^verbatim>\<open>EOF\<close>, with the level still on the stack, and no error is
  reported.
\<close>

theorem indent_without_unindent:
  "map (map_sum id fst) (scanner_run 6 (scanner_on ([CHR 0x0A] @ ''  a'')))
     = [Inr tokINDENT, Inr tokNAME, Inr tokEOF]
   \<and> map_sum id (\<lambda>x. displayed (sink (snd x))) (read_after 2 (scanner_on ([CHR 0x0A] @ ''  a'')))
     = Inr []"
  by code_simp

end
